theory Spec2Isabelle
  imports Complex_Main "HOL-Library.Multiset"
begin

section \<open>Bridge criticality analysis: the notebook's computation\<close>

text \<open>
  The notebook \<^verbatim>\<open>bridge_criticality_analysis.ipynb\<close> reads two tables, cleans one
  column, and for every buffer distance joins the tables, min-max normalises two metrics,
  averages them into a criticality score, and tabulates the ten highest scores.

  Numeric cells are float64. They are modelled as the real numbers extended by the two
  infinities and NaN, with IEEE rules for the special values. A result whose magnitude
  reaches \<open>2 ^ 1024 - 2 ^ 970\<close>, half a unit in the last place above the largest
  float64, overflows to an infinity, as it does under round-to-nearest. The rounding of a
  result below that bound to 53 bits and the sign of zero are not modelled (every zero is
  \<open>+0\<close>).
\<close>

subsection \<open>Numeric cells\<close>

datatype f64 = Fin real | PInf | NInf | NaN

fun is_fin :: "f64 \<Rightarrow> bool" where
  "is_fin (Fin _) = True"
| "is_fin _ = False"

fun f64_neg :: "f64 \<Rightarrow> f64" where
  "f64_neg (Fin x) = Fin (- x)"
| "f64_neg PInf = NInf"
| "f64_neg NInf = PInf"
| "f64_neg NaN = NaN"

fun f64_abs :: "f64 \<Rightarrow> f64" where
  "f64_abs (Fin x) = Fin \<bar>x\<bar>"
| "f64_abs PInf = PInf"
| "f64_abs NInf = PInf"
| "f64_abs NaN = NaN"

definition overflow_threshold :: real where
  "overflow_threshold = 2 ^ 1024 - 2 ^ 970"

definition f64_round :: "real \<Rightarrow> f64" where
  "f64_round x =
     (if overflow_threshold \<le> x then PInf
      else if x \<le> - overflow_threshold then NInf
      else Fin x)"

fun f64_add :: "f64 \<Rightarrow> f64 \<Rightarrow> f64" where
  "f64_add NaN _ = NaN"
| "f64_add _ NaN = NaN"
| "f64_add (Fin x) (Fin y) = f64_round (x + y)"
| "f64_add PInf NInf = NaN"
| "f64_add NInf PInf = NaN"
| "f64_add PInf _ = PInf"
| "f64_add _ PInf = PInf"
| "f64_add NInf _ = NInf"
| "f64_add _ NInf = NInf"

definition f64_sub :: "f64 \<Rightarrow> f64 \<Rightarrow> f64" where
  "f64_sub a b = f64_add a (f64_neg b)"

text \<open>
  Division of a pandas column by a scalar or by a column never raises: a zero divisor
  gives NaN for \<open>0 / 0\<close> and an infinity otherwise.
\<close>

fun f64_div :: "f64 \<Rightarrow> f64 \<Rightarrow> f64" where
  "f64_div NaN _ = NaN"
| "f64_div _ NaN = NaN"
| "f64_div (Fin x) (Fin y) =
     (if y = 0 then (if x = 0 then NaN else if 0 < x then PInf else NInf)
      else f64_round (x / y))"
| "f64_div (Fin x) PInf = Fin 0"
| "f64_div (Fin x) NInf = Fin 0"
| "f64_div PInf (Fin y) = (if 0 \<le> y then PInf else NInf)"
| "f64_div NInf (Fin y) = (if 0 \<le> y then NInf else PInf)"
| "f64_div PInf _ = NaN"
| "f64_div NInf _ = NaN"

text \<open>The order of float64; every comparison with NaN is false.\<close>

fun f64_less :: "f64 \<Rightarrow> f64 \<Rightarrow> bool" where
  "f64_less NaN _ = False"
| "f64_less _ NaN = False"
| "f64_less (Fin x) (Fin y) = (x < y)"
| "f64_less (Fin x) PInf = True"
| "f64_less (Fin x) NInf = False"
| "f64_less PInf _ = False"
| "f64_less NInf NInf = False"
| "f64_less NInf _ = True"

text \<open>
  \<^verbatim>\<open>Series.min()\<close> and \<^verbatim>\<open>Series.max()\<close> skip NaN cells; on a column with no other
  cell (an empty one too) they return NaN.
\<close>

definition col_min :: "f64 list \<Rightarrow> f64" where
  "col_min xs =
     (case filter (\<lambda>x. x \<noteq> NaN) xs of
        [] \<Rightarrow> NaN
      | y # ys \<Rightarrow> foldl (\<lambda>m x. if f64_less x m then x else m) y ys)"

definition col_max :: "f64 list \<Rightarrow> f64" where
  "col_max xs =
     (case filter (\<lambda>x. x \<noteq> NaN) xs of
        [] \<Rightarrow> NaN
      | y # ys \<Rightarrow> foldl (\<lambda>m x. if f64_less m x then x else m) y ys)"

subsection \<open>Exceptions\<close>

text \<open>The exceptions of the library calls of the notebook that the model follows.\<close>

datatype error = ValueError | AttributeError

subsection \<open>Tables\<close>

text \<open>
  A row of \<^verbatim>\<open>efficiency_results_all_bridges.csv\<close>, a row of
  \<^verbatim>\<open>Functionality_475years.csv\<close> after the preprocessing cell, and a row of
  \<^verbatim>\<open>merged_df\<close> with the columns the scoring cell adds. The buffer distance is
  a number read from the file (no missing cell).
\<close>

record efficiency_row =
  bridge_iop :: string
  osm_id :: string
  highway_type :: string
  buffer_distance :: real
  original_global_efficiency :: f64
  new_global_efficiency :: f64
  change_in_efficiency :: f64

record functionality_row =
  iop :: string
  functionality_pct :: f64

record scored_row = efficiency_row +
  functionality :: f64
  normalized_efficiency_change :: f64
  norm_func :: f64
  norm_eff :: f64
  criticality_score :: f64
  relative_efficiency_change :: f64
  absolute_relative_efficiency_change :: f64

subsection \<open>Scorer\<close>

text \<open>
  \<^verbatim>\<open>pd.merge(buffer_df, functionality_df[['Bridge IOP', 'Functionality']],
  on='Bridge IOP', how='inner')\<close>: one row for every pair of a left row and a right row
  with the same key. The repository names pandas 2.0.0, whose inner join goes through the
  keys in the order of their first occurrence in the left table and, for every key, pairs
  the left rows of that key with the right rows of that key: left rows with the same key
  end up next to each other. (From pandas 2.2 on the result keeps the order of the left
  rows; the two orders differ only when a key occurs more than once on the left.)
\<close>

definition first_seen :: "'a list \<Rightarrow> 'a list" where
  "first_seen xs = rev (remdups (rev xs))"

definition group_by_key :: "efficiency_row list \<Rightarrow> efficiency_row list" where
  "group_by_key df =
     concat (map (\<lambda>k. filter (\<lambda>e. bridge_iop e = k) df) (first_seen (map bridge_iop df)))"

definition join_in_order ::
  "efficiency_row list \<Rightarrow> functionality_row list \<Rightarrow> (efficiency_row \<times> f64) list" where
  "join_in_order left_rows functionality_df =
     concat (map (\<lambda>e. map (\<lambda>f. (e, functionality_pct f))
                          (filter (\<lambda>f. iop f = bridge_iop e) functionality_df))
                 left_rows)"

definition merge_inner ::
  "efficiency_row list \<Rightarrow> functionality_row list \<Rightarrow> (efficiency_row \<times> f64) list" where
  "merge_inner buffer_df functionality_df =
     join_in_order (group_by_key buffer_df) functionality_df"

definition merged_df ::
  "real \<Rightarrow> efficiency_row list \<Rightarrow> functionality_row list \<Rightarrow> (efficiency_row \<times> f64) list" where
  "merged_df buffer efficiency_df functionality_df =
     merge_inner (filter (\<lambda>e. buffer_distance e = buffer) efficiency_df) functionality_df"

text \<open>The body of the loop over \<^verbatim>\<open>buffer_distances\<close>, for one buffer distance.\<close>

definition make_scored ::
  "real \<Rightarrow> f64 \<Rightarrow> f64 \<Rightarrow> f64 \<Rightarrow> f64 \<Rightarrow> efficiency_row \<times> f64 \<Rightarrow> scored_row" where
  "make_scored buffer min_func max_func min_eff max_eff ef =
     (let e = fst ef;
          func = snd ef;
          nec = f64_abs (change_in_efficiency e);
          nf = f64_sub (Fin 1) (f64_div (f64_sub func min_func) (f64_sub max_func min_func));
          ne = f64_div (f64_sub nec min_eff) (f64_sub max_eff min_eff);
          rel = f64_div (change_in_efficiency e) (original_global_efficiency e)
      in \<lparr>bridge_iop = bridge_iop e, osm_id = osm_id e, highway_type = highway_type e,
          buffer_distance = buffer,
          original_global_efficiency = original_global_efficiency e,
          new_global_efficiency = new_global_efficiency e,
          change_in_efficiency = change_in_efficiency e,
          functionality = func,
          normalized_efficiency_change = nec,
          norm_func = nf,
          norm_eff = ne,
          criticality_score = f64_div (f64_add nf ne) (Fin 2),
          relative_efficiency_change = rel,
          absolute_relative_efficiency_change = f64_abs rel\<rparr>)"

definition score_buffer ::
  "real \<Rightarrow> efficiency_row list \<Rightarrow> functionality_row list \<Rightarrow> scored_row list" where
  "score_buffer buffer efficiency_df functionality_df =
     (let merged = merged_df buffer efficiency_df functionality_df;
          funcs = map snd merged;
          necs = map (\<lambda>ef. f64_abs (change_in_efficiency (fst ef))) merged
      in map (make_scored buffer (col_min funcs) (col_max funcs) (col_min necs) (col_max necs))
           merged)"

text \<open>
  The derived fields of a row of the scored table of a buffer distance, from the cells of
  the row and the functionality and efficiency-change columns of its group.
\<close>

definition derived_fields :: "scored_row list \<Rightarrow> scored_row \<Rightarrow> bool" where
  "derived_fields grp r \<longleftrightarrow>
     normalized_efficiency_change r = f64_abs (change_in_efficiency r)
     \<and> norm_func r =
         f64_sub (Fin 1)
           (f64_div (f64_sub (functionality r) (col_min (map functionality grp)))
                    (f64_sub (col_max (map functionality grp))
                             (col_min (map functionality grp))))
     \<and> norm_eff r =
         f64_div (f64_sub (normalized_efficiency_change r)
                    (col_min (map normalized_efficiency_change grp)))
                 (f64_sub (col_max (map normalized_efficiency_change grp))
                          (col_min (map normalized_efficiency_change grp)))
     \<and> criticality_score r = f64_div (f64_add (norm_func r) (norm_eff r)) (Fin 2)
     \<and> relative_efficiency_change r =
         f64_div (change_in_efficiency r) (original_global_efficiency r)
     \<and> absolute_relative_efficiency_change r = f64_abs (relative_efficiency_change r)"

text \<open>\<^verbatim>\<open>sorted(efficiency_df['Buffer Distance (km)'].unique())\<close>\<close>

definition buffer_distances :: "efficiency_row list \<Rightarrow> real list" where
  "buffer_distances efficiency_df = sort (remdups (map buffer_distance efficiency_df))"

text \<open>
  The list \<^verbatim>\<open>all_criticality_scores\<close> that the loop fills, one table for every
  buffer distance, and \<^verbatim>\<open>pd.concat(all_criticality_scores, ignore_index=True)\<close>,
  which raises \<^verbatim>\<open>ValueError\<close> when the list is empty. \<open>all_scores_df\<close> is the
  rows of the comprehensive table, which the later cells read.
\<close>

definition all_criticality_scores ::
  "efficiency_row list \<Rightarrow> functionality_row list \<Rightarrow> scored_row list list" where
  "all_criticality_scores efficiency_df functionality_df =
     map (\<lambda>buffer. score_buffer buffer efficiency_df functionality_df)
         (buffer_distances efficiency_df)"

definition pd_concat :: "'a list list \<Rightarrow> error + 'a list" where
  "pd_concat frames = (if frames = [] then Inl ValueError else Inr (concat frames))"

definition all_scores_df ::
  "efficiency_row list \<Rightarrow> functionality_row list \<Rightarrow> scored_row list" where
  "all_scores_df efficiency_df functionality_df =
     concat (map (\<lambda>buffer. score_buffer buffer efficiency_df functionality_df)
                 (buffer_distances efficiency_df))"

subsection \<open>Reporter\<close>

text \<open>
  \<^verbatim>\<open>buffer_scores.sort_values('Criticality Score', ascending=False)\<close> is called
  without \<^verbatim>\<open>kind\<close>, so the library sorts with its default algorithm, quicksort,
  which pandas documents as not stable. The sorting algorithm is library code and a
  parameter \<open>sort_values\<close> of the model. What the library promises of the result is
  \<open>sorted_descending\<close>: the rows are permuted, no row is followed by a row with a
  greater score, and rows with a NaN score come last.
\<close>

definition descending :: "f64 list \<Rightarrow> bool" where
  "descending ks = sorted_wrt (\<lambda>a b. \<not> f64_less a b \<and> (b = NaN \<or> a \<noteq> NaN)) ks"

definition sorted_descending :: "scored_row list \<Rightarrow> scored_row list \<Rightarrow> bool" where
  "sorted_descending df sorted_df \<longleftrightarrow>
     mset sorted_df = mset df \<and> descending (map criticality_score sorted_df)"

text \<open>
  \<^verbatim>\<open>all_scores_df[all_scores_df['Buffer Distance (km)'] == buffer]\<close> and
  \<^verbatim>\<open>.sort_values(...).head(10)\<close>
\<close>

definition buffer_scores :: "scored_row list \<Rightarrow> real \<Rightarrow> scored_row list" where
  "buffer_scores all_scores buffer = filter (\<lambda>r. buffer_distance r = buffer) all_scores"

definition top_bridges ::
  "(scored_row list \<Rightarrow> scored_row list) \<Rightarrow> scored_row list \<Rightarrow> real \<Rightarrow> scored_row list" where
  "top_bridges sort_values all_scores buffer =
     take 10 (sort_values (buffer_scores all_scores buffer))"

record summary_row =
  s_buffer_distance :: real
  s_bridge_iop :: string
  s_osm_id :: string
  s_highway_type :: string
  s_functionality :: f64
  s_criticality_score :: f64
  s_normalized_efficiency_change :: f64
  s_absolute_relative_efficiency_change :: f64

definition summary_of :: "real \<Rightarrow> scored_row \<Rightarrow> summary_row" where
  "summary_of buffer bridge =
     \<lparr>s_buffer_distance = buffer,
      s_bridge_iop = bridge_iop bridge,
      s_osm_id = osm_id bridge,
      s_highway_type = highway_type bridge,
      s_functionality = functionality bridge,
      s_criticality_score = criticality_score bridge,
      s_normalized_efficiency_change = normalized_efficiency_change bridge,
      s_absolute_relative_efficiency_change = absolute_relative_efficiency_change bridge\<rparr>"

text \<open>The loop that fills \<^verbatim>\<open>summary_rows\<close>, over a list of buffer distances.\<close>

definition summary_rows ::
  "(scored_row list \<Rightarrow> scored_row list) \<Rightarrow> scored_row list \<Rightarrow> real list \<Rightarrow> summary_row list" where
  "summary_rows sort_values all_scores buffers =
     concat (map (\<lambda>buffer. map (summary_of buffer) (top_bridges sort_values all_scores buffer))
                 buffers)"

definition summary_df ::
  "(scored_row list \<Rightarrow> scored_row list) \<Rightarrow> efficiency_row list \<Rightarrow> functionality_row list
     \<Rightarrow> summary_row list" where
  "summary_df sort_values efficiency_df functionality_df =
     summary_rows sort_values (all_scores_df efficiency_df functionality_df)
       (buffer_distances efficiency_df)"

text \<open>
  \<^verbatim>\<open>Series.value_counts()\<close>: the number of rows of every value that occurs. The
  order of the resulting series is not modelled.
\<close>

definition value_counts :: "string list \<Rightarrow> string \<Rightarrow> nat option" where
  "value_counts col k = (if k \<in> set col then Some (count_list col k) else None)"

definition bridge_frequency ::
  "(scored_row list \<Rightarrow> scored_row list) \<Rightarrow> efficiency_row list \<Rightarrow> functionality_row list
     \<Rightarrow> string \<Rightarrow> nat option" where
  "bridge_frequency sort_values efficiency_df functionality_df =
     value_counts (map s_bridge_iop (summary_df sort_values efficiency_df functionality_df))"

text \<open>
  A sorting algorithm that meets \<open>sorted_descending\<close>: it sorts the rows whose score
  is not NaN by insertion and puts the NaN rows last. It keeps rows of equal score in
  their order, as pandas' \<^verbatim>\<open>kind='stable'\<close> does.
\<close>

fun insert_desc :: "scored_row \<Rightarrow> scored_row list \<Rightarrow> scored_row list" where
  "insert_desc r [] = [r]"
| "insert_desc r (x # xs) =
     (if f64_less (criticality_score r) (criticality_score x) then x # insert_desc r xs
      else r # x # xs)"

definition sort_values_stable :: "scored_row list \<Rightarrow> scored_row list" where
  "sort_values_stable df =
     foldr insert_desc (filter (\<lambda>r. criticality_score r \<noteq> NaN) df) []
     @ filter (\<lambda>r. criticality_score r = NaN) df"

text \<open>
  Rows of equal score are in their original relative order: for every score, the rows of
  the selection with that score are the first such rows of the group, in the group's
  order.
\<close>

definition ties_in_row_order :: "scored_row list \<Rightarrow> scored_row list \<Rightarrow> bool" where
  "ties_in_row_order df sel \<longleftrightarrow>
     list_all (\<lambda>r. let same = (\<lambda>x. criticality_score x = criticality_score r)
                    in filter same sel = take (length (filter same sel)) (filter same df)) sel"

subsection \<open>Normalizer\<close>

text \<open>
  \<^verbatim>\<open>functionality_df['Functionality'].str.rstrip('%').astype(float)\<close> on the column
  that \<^verbatim>\<open>read_csv\<close> returns. The column is either of dtype object, when some cell of
  the file is text, and its cells are then strings and missing values; or it is numeric,
  when every cell of the file is a number or empty. On a numeric column \<^verbatim>\<open>.str\<close>
  raises \<^verbatim>\<open>AttributeError\<close>. On an object column \<^verbatim>\<open>rstrip('%')\<close> removes every
  trailing percent sign of a string, none when there is none, and leaves a missing value
  as it is; \<^verbatim>\<open>astype(float)\<close> turns a missing value into NaN, converts a string as
  Python's \<^verbatim>\<open>float()\<close> does, and raises \<^verbatim>\<open>ValueError\<close> at a string that
  \<^verbatim>\<open>float()\<close> rejects.

  A string is the list of its Unicode code points; \<open>ascii\<close> gives the string of an ASCII
  literal.
\<close>

datatype cell = Str "nat list" | Missing

datatype series = Object "cell list" | Numeric "f64 list"

definition char_code :: "char \<Rightarrow> nat" where
  "char_code c = of_char c"

definition ascii :: "string \<Rightarrow> nat list" where
  "ascii s = map char_code s"

text \<open>\<^verbatim>\<open>str.rstrip(c)\<close> for a single character.\<close>

definition str_rstrip :: "nat \<Rightarrow> nat list \<Rightarrow> nat list" where
  "str_rstrip c s = rev (dropWhile (\<lambda>x. x = c) (rev s))"

text \<open>
  \<^verbatim>\<open>float()\<close> on a string: the spaces at both ends are removed, then comes a sign,
  then \<^verbatim>\<open>inf\<close>, \<^verbatim>\<open>infinity\<close> or \<^verbatim>\<open>nan\<close> in any case, or digits (single
  underscores between digits allowed) with an optional point and an optional exponent.
  The spaces are the six ASCII ones and the Unicode spaces from U+0085 on (the control
  characters U+001C to U+001F are not removed). A digit is an ASCII digit or a character
  from U+0080 on with a decimal value in the interpreter's Unicode database; that table
  grows with the Python version and is the parameter \<open>decimal\<close>. The value is the
  decimal value, an infinity when it reaches the overflow bound of float64.
\<close>

definition is_space :: "nat \<Rightarrow> bool" where
  "is_space c \<longleftrightarrow>
     c \<in> set [0x20, 0x09, 0x0A, 0x0B, 0x0C, 0x0D]
     \<or> c \<in> set [0x85, 0xA0, 0x1680, 0x2028, 0x2029, 0x202F, 0x205F, 0x3000]
     \<or> (0x2000 \<le> c \<and> c \<le> 0x200A)"

definition digit_val :: "(nat \<Rightarrow> nat option) \<Rightarrow> nat \<Rightarrow> nat option" where
  "digit_val decimal c =
     (if 48 \<le> c \<and> c \<le> 57 then Some (c - 48)
      else if 128 \<le> c \<and> \<not> is_space c then decimal c
      else None)"

definition is_digit :: "(nat \<Rightarrow> nat option) \<Rightarrow> nat \<Rightarrow> bool" where
  "is_digit decimal c \<longleftrightarrow> digit_val decimal c \<noteq> None"

definition lower :: "nat \<Rightarrow> nat" where
  "lower c = (if 65 \<le> c \<and> c \<le> 90 then c + 32 else c)"

definition strip :: "nat list \<Rightarrow> nat list" where
  "strip s = rev (dropWhile is_space (rev (dropWhile is_space s)))"

definition sign :: "nat list \<Rightarrow> int \<times> nat list" where
  "sign s =
     (case s of
        [] \<Rightarrow> (1, s)
      | c # r \<Rightarrow>
          if c = char_code (CHR ''+'') then (1, r)
          else if c = char_code (CHR ''-'') then (- 1, r)
          else (1, s))"

text \<open>After a digit: \<open>(["_"] digit)*\<close>, the digits read and the text left.\<close>

fun more_digits :: "(nat \<Rightarrow> nat option) \<Rightarrow> nat list \<Rightarrow> nat list \<times> nat list" where
  "more_digits decimal [] = ([], [])"
| "more_digits decimal [c] =
     (case digit_val decimal c of Some v \<Rightarrow> ([v], []) | None \<Rightarrow> ([], [c]))"
| "more_digits decimal (c # d # s) =
     (case digit_val decimal c of
        Some v \<Rightarrow> (case more_digits decimal (d # s) of (ds, r) \<Rightarrow> (v # ds, r))
      | None \<Rightarrow>
          (if c = char_code (CHR ''_'')
           then (case digit_val decimal d of
                   Some w \<Rightarrow> (case more_digits decimal s of (ds, r) \<Rightarrow> (w # ds, r))
                 | None \<Rightarrow> ([], c # d # s))
           else ([], c # d # s)))"

definition digitpart :: "(nat \<Rightarrow> nat option) \<Rightarrow> nat list \<Rightarrow> nat list \<times> nat list" where
  "digitpart decimal s =
     (case s of
        [] \<Rightarrow> ([], s)
      | c # r \<Rightarrow> if is_digit decimal c then more_digits decimal s else ([], s))"

text \<open>\<open>[digitpart] "." digitpart | digitpart ["."]\<close>\<close>

definition number ::
  "(nat \<Rightarrow> nat option) \<Rightarrow> nat list \<Rightarrow> ((nat list \<times> nat list) \<times> nat list) option" where
  "number decimal s =
     (case digitpart decimal s of (ip, r) \<Rightarrow>
        (case r of
           [] \<Rightarrow> if ip = [] then None else Some ((ip, []), r)
         | c # r' \<Rightarrow>
             if c = char_code (CHR ''.'')
             then (case digitpart decimal r' of (fp, r'') \<Rightarrow>
                     if ip = [] \<and> fp = [] then None else Some ((ip, fp), r''))
             else if ip = [] then None else Some ((ip, []), r)))"

definition digits_val :: "nat list \<Rightarrow> nat" where
  "digits_val ds = foldl (\<lambda>a d. 10 * a + d) 0 ds"

text \<open>\<open>[("e" | "E") [sign] digitpart]\<close>, then the end of the text.\<close>

definition exponent :: "(nat \<Rightarrow> nat option) \<Rightarrow> nat list \<Rightarrow> int option" where
  "exponent decimal s =
     (case s of
        [] \<Rightarrow> Some 0
      | c # r \<Rightarrow>
          if c = char_code (CHR ''e'') \<or> c = char_code (CHR ''E'')
          then (case sign r of (sg, r1) \<Rightarrow>
                 (case digitpart decimal r1 of (ds, r2) \<Rightarrow>
                    if ds \<noteq> [] \<and> r2 = [] then Some (sg * int (digits_val ds)) else None))
          else None)"

definition scale :: "real \<Rightarrow> int \<Rightarrow> real" where
  "scale m e = (if 0 \<le> e then m * 10 ^ nat e else m / 10 ^ nat (- e))"

definition py_float :: "(nat \<Rightarrow> nat option) \<Rightarrow> nat list \<Rightarrow> f64 option" where
  "py_float decimal s =
     (case sign (strip s) of (sg, u) \<Rightarrow>
        if map lower u = ascii ''inf'' \<or> map lower u = ascii ''infinity''
          then Some (if sg < 0 then NInf else PInf)
        else if map lower u = ascii ''nan'' then Some NaN
        else (case number decimal u of
                None \<Rightarrow> None
              | Some ((ip, fp), r) \<Rightarrow>
                  (case exponent decimal r of
                     None \<Rightarrow> None
                   | Some e \<Rightarrow>
                       Some (f64_round (of_int sg *
                         scale (of_nat (digits_val (ip @ fp)) / 10 ^ length fp) e)))))"

fun astype_float :: "(nat \<Rightarrow> nat option) \<Rightarrow> cell list \<Rightarrow> error + f64 list" where
  "astype_float decimal [] = Inr []"
| "astype_float decimal (Missing # cells) =
     (case astype_float decimal cells of Inl e \<Rightarrow> Inl e | Inr vs \<Rightarrow> Inr (NaN # vs))"
| "astype_float decimal (Str s # cells) =
     (case py_float decimal s of
        None \<Rightarrow> Inl ValueError
      | Some v \<Rightarrow>
          (case astype_float decimal cells of Inl e \<Rightarrow> Inl e | Inr vs \<Rightarrow> Inr (v # vs)))"

fun cell_rstrip :: "nat \<Rightarrow> cell \<Rightarrow> cell" where
  "cell_rstrip c (Str s) = Str (str_rstrip c s)"
| "cell_rstrip c Missing = Missing"

fun clean_functionality :: "(nat \<Rightarrow> nat option) \<Rightarrow> series \<Rightarrow> error + f64 list" where
  "clean_functionality decimal (Numeric xs) = Inl AttributeError"
| "clean_functionality decimal (Object cells) =
     astype_float decimal (map (cell_rstrip (char_code (CHR ''%''))) cells)"

text \<open>
  The grammar of the texts that denote a number, as the Python reference gives it for
  \<^verbatim>\<open>float()\<close>: \<open>digitpart ::= digit (["_"] digit)*\<close>,
  \<open>number ::= [digitpart] "." digitpart | digitpart ["."]\<close>,
  \<open>exponent ::= ("e" | "E") [sign] digitpart\<close>,
  \<open>floatvalue ::= [sign] (number [exponent] | infinity | nan)\<close>, between spaces. A text
  is numeric when it is a \<open>float_text\<close>.
\<close>

inductive digit_tail :: "(nat \<Rightarrow> nat option) \<Rightarrow> nat list \<Rightarrow> bool"
  for decimal :: "nat \<Rightarrow> nat option" where
  no_more: "digit_tail decimal []"
| digit: "is_digit decimal c \<Longrightarrow> digit_tail decimal w \<Longrightarrow> digit_tail decimal (c # w)"
| underscore_digit:
    "is_digit decimal c \<Longrightarrow> digit_tail decimal w \<Longrightarrow>
     digit_tail decimal (char_code (CHR ''_'') # c # w)"

definition digitpart_text :: "(nat \<Rightarrow> nat option) \<Rightarrow> nat list \<Rightarrow> bool" where
  "digitpart_text decimal p \<longleftrightarrow>
     (\<exists>c w. p = c # w \<and> is_digit decimal c \<and> digit_tail decimal w)"

definition sign_text :: "nat list \<Rightarrow> bool" where
  "sign_text s \<longleftrightarrow> s = [] \<or> s = ascii ''+'' \<or> s = ascii ''-''"

definition number_text :: "(nat \<Rightarrow> nat option) \<Rightarrow> nat list \<Rightarrow> bool" where
  "number_text decimal n \<longleftrightarrow>
     (\<exists>ip fp. n = ip @ ascii ''.'' @ fp \<and> (ip = [] \<or> digitpart_text decimal ip)
         \<and> digitpart_text decimal fp)
     \<or> (\<exists>ip. digitpart_text decimal ip \<and> (n = ip \<or> n = ip @ ascii ''.''))"

definition exponent_text :: "(nat \<Rightarrow> nat option) \<Rightarrow> nat list \<Rightarrow> bool" where
  "exponent_text decimal x \<longleftrightarrow>
     x = [] \<or>
     (\<exists>c sg ds. x = c # sg @ ds \<and> (c = char_code (CHR ''e'') \<or> c = char_code (CHR ''E''))
         \<and> sign_text sg \<and> digitpart_text decimal ds)"

definition special_text :: "nat list \<Rightarrow> bool" where
  "special_text u \<longleftrightarrow>
     map lower u = ascii ''inf'' \<or> map lower u = ascii ''infinity'' \<or> map lower u = ascii ''nan''"

definition float_text :: "(nat \<Rightarrow> nat option) \<Rightarrow> nat list \<Rightarrow> bool" where
  "float_text decimal t \<longleftrightarrow>
     (\<exists>ws1 sg body ws2.
        t = ws1 @ sg @ body @ ws2 \<and> list_all is_space ws1 \<and> list_all is_space ws2
        \<and> sign_text sg
        \<and> (special_text body
            \<or> (\<exists>n x. body = n @ x \<and> number_text decimal n \<and> exponent_text decimal x)))"

text \<open>A text at whose start the reading of digits ends.\<close>

definition stops :: "(nat \<Rightarrow> nat option) \<Rightarrow> nat list \<Rightarrow> bool" where
  "stops decimal r \<longleftrightarrow>
     r = [] \<or> (\<not> is_digit decimal (hd r) \<and> hd r \<noteq> char_code (CHR ''_''))"

subsection \<open>Example tables\<close>

text \<open>
  A row of the efficiency table from a bridge, a buffer distance, the original efficiency
  and the change, and a row of the functionality table.
\<close>

definition efficiency_of :: "string \<Rightarrow> real \<Rightarrow> real \<Rightarrow> real \<Rightarrow> efficiency_row" where
  "efficiency_of b buffer original change =
     \<lparr>bridge_iop = b, osm_id = b, highway_type = ''primary'', buffer_distance = buffer,
      original_global_efficiency = Fin original,
      new_global_efficiency = Fin (original + change),
      change_in_efficiency = Fin change\<rparr>"

definition functionality_of :: "string \<Rightarrow> real \<Rightarrow> functionality_row" where
  "functionality_of b pct = \<lparr>iop = b, functionality_pct = Fin pct\<rparr>"

text \<open>The worked scenario: two bridges at buffer 5.\<close>

definition scenario_efficiency_df :: "efficiency_row list" where
  "scenario_efficiency_df =
     [efficiency_of ''B1'' 5 0.50 (- 0.02), efficiency_of ''B2'' 5 0.50 (- 0.01)]"

definition scenario_functionality_df :: "functionality_row list" where
  "scenario_functionality_df = [functionality_of ''B1'' 80, functionality_of ''B2'' 90]"

text \<open>
  Degenerate groups: two bridges of equal functionality, two bridges whose efficiency
  changes have equal magnitude, and a bridge measured on a network of efficiency zero.
\<close>

definition equal_functionality_df :: "functionality_row list" where
  "equal_functionality_df = [functionality_of ''B1'' 80, functionality_of ''B2'' 80]"

definition equal_change_df :: "efficiency_row list" where
  "equal_change_df = [efficiency_of ''B1'' 5 0.50 (- 0.02), efficiency_of ''B2'' 5 0.50 0.02]"

text \<open>
  Three bridges at buffer 5, the first with no functionality on record: an empty cell of
  the file is read as NaN.
\<close>

definition missing_efficiency_df :: "efficiency_row list" where
  "missing_efficiency_df =
     [efficiency_of ''B0'' 5 0.50 (- 0.03), efficiency_of ''B1'' 5 0.50 (- 0.02),
      efficiency_of ''B2'' 5 0.50 (- 0.01)]"

definition missing_functionality_df :: "functionality_row list" where
  "missing_functionality_df =
     [\<lparr>iop = ''B0'', functionality_pct = NaN\<rparr>, functionality_of ''B1'' 80,
      functionality_of ''B2'' 90]"

definition zero_original_df :: "efficiency_row list" where
  "zero_original_df = [efficiency_of ''B1'' 5 0 0, efficiency_of ''B2'' 5 0.50 (- 0.01)]"

text \<open>
  A functionality table with one bridge and an efficiency table that lists this bridge
  twice at buffer 5, once for each of two road segments.
\<close>

definition one_bridge_df :: "functionality_row list" where
  "one_bridge_df = [functionality_of ''B1'' 80]"

definition two_segments_df :: "efficiency_row list" where
  "two_segments_df =
     [efficiency_of ''B1'' 5 0.50 (- 0.02),
      (efficiency_of ''B1'' 5 0.50 (- 0.01))\<lparr>osm_id := ''B1b''\<rparr>]"

text \<open>
  An efficiency table with two bridges at the buffer distances 10 and 5, not in the
  order of the buffer distances.
\<close>

definition two_buffers_df :: "efficiency_row list" where
  "two_buffers_df =
     [efficiency_of ''B1'' 10 0.40 (- 0.01), efficiency_of ''B1'' 5 0.50 (- 0.02),
      efficiency_of ''B2'' 5 0.50 (- 0.01), efficiency_of ''B2'' 10 0.40 (- 0.03)]"

text \<open>
  Two bridges measured at eleven buffer distances, from 5 km to 60 km.
\<close>

definition eleven_buffers :: "real list" where
  "eleven_buffers = [5, 10, 15, 20, 25, 30, 35, 40, 45, 50, 60]"

definition eleven_efficiency_df :: "efficiency_row list" where
  "eleven_efficiency_df =
     concat (map (\<lambda>b. [efficiency_of ''B1'' b 0.50 (- 0.02), efficiency_of ''B2'' b 0.50 (- 0.01)])
                 eleven_buffers)"

lemmas scorer_defs =
  score_buffer_def merged_df_def merge_inner_def join_in_order_def group_by_key_def
  first_seen_def make_scored_def col_min_def col_max_def
  f64_sub_def efficiency_of_def functionality_of_def Let_def

section \<open>Properties of the Scorer\<close>

text \<open>Results far below the overflow bound are not changed by \<open>f64_round\<close>.\<close>

lemma overflow_threshold_large: "2 ^ 1000 < overflow_threshold"
proof -
  have "(2::real) ^ 970 \<le> 2 ^ 1023" and "(2::real) ^ 1000 < 2 ^ 1023"
    by (simp_all add: power_increasing power_strict_increasing)
  moreover have "(2::real) ^ 1024 = 2 * 2 ^ 1023"
    by (simp add: power_Suc [symmetric] del: power_Suc)
  ultimately show ?thesis
    unfolding overflow_threshold_def by linarith
qed

lemma f64_round_fin: "\<bar>x\<bar> < overflow_threshold \<Longrightarrow> f64_round x = Fin x"
  by (auto simp: f64_round_def)

lemma f64_round_small [simp]: "\<bar>x\<bar> \<le> 1000000 \<Longrightarrow> f64_round x = Fin x"
proof -
  assume "\<bar>x\<bar> \<le> 1000000"
  moreover have "(1000000::real) \<le> 2 ^ 20" by simp
  moreover have "(2::real) ^ 20 \<le> 2 ^ 1000" by (rule power_increasing) simp_all
  ultimately have "\<bar>x\<bar> < overflow_threshold"
    using overflow_threshold_large by linarith
  then show ?thesis by (rule f64_round_fin)
qed

text \<open>
  C7. With the two efficiency rows (B1, change -0.02, original 0.50) and (B2, change
  -0.01, original 0.50) at buffer 5 and the functionality values 80 and 90, the Scorer
  gives normalized efficiency change 0.02 and 0.01, \<open>norm_eff\<close> 1 and 0, \<open>norm_func\<close>
  1 and 0, and criticality score 1 and 0.
\<close>

theorem scorer_scenario:
  "map normalized_efficiency_change
     (score_buffer 5 [efficiency_of ''B1'' 5 0.50 (- 0.02), efficiency_of ''B2'' 5 0.50 (- 0.01)]
        [functionality_of ''B1'' 80, functionality_of ''B2'' 90]) = [Fin 0.02, Fin 0.01]
   \<and> map norm_eff
     (score_buffer 5 [efficiency_of ''B1'' 5 0.50 (- 0.02), efficiency_of ''B2'' 5 0.50 (- 0.01)]
        [functionality_of ''B1'' 80, functionality_of ''B2'' 90]) = [Fin 1, Fin 0]
   \<and> map norm_func
     (score_buffer 5 [efficiency_of ''B1'' 5 0.50 (- 0.02), efficiency_of ''B2'' 5 0.50 (- 0.01)]
        [functionality_of ''B1'' 80, functionality_of ''B2'' 90]) = [Fin 1, Fin 0]
   \<and> map criticality_score
     (score_buffer 5 [efficiency_of ''B1'' 5 0.50 (- 0.02), efficiency_of ''B2'' 5 0.50 (- 0.01)]
        [functionality_of ''B1'' 80, functionality_of ''B2'' 90]) = [Fin 1, Fin 0]"
  by (simp add: scorer_defs)

lemma filter_not_NaN_fin:
  "\<forall>x\<in>set xs. is_fin x \<Longrightarrow> filter (\<lambda>x. x \<noteq> NaN) xs = xs"
  by (induction xs) auto

lemma foldl_min_fin:
  "\<forall>x\<in>set ys. is_fin x \<Longrightarrow>
   \<exists>m. foldl (\<lambda>m x. if f64_less x m then x else m) (Fin y) ys = Fin m
       \<and> Fin m \<in> set (Fin y # ys) \<and> (\<forall>x. Fin x \<in> set (Fin y # ys) \<longrightarrow> m \<le> x)"
proof (induction ys arbitrary: y)
  case Nil
  then show ?case by simp
next
  case (Cons a ys)
  then obtain z where a: "a = Fin z" by (cases a) auto
  from Cons.prems have fin: "\<forall>x\<in>set ys. is_fin x" by simp
  show ?case
  proof (cases "z < y")
    case True
    from Cons.IH [OF fin, of z] True a show ?thesis by fastforce
  next
    case False
    from Cons.IH [OF fin, of y] False a show ?thesis by fastforce
  qed
qed

lemma foldl_max_fin:
  "\<forall>x\<in>set ys. is_fin x \<Longrightarrow>
   \<exists>m. foldl (\<lambda>m x. if f64_less m x then x else m) (Fin y) ys = Fin m
       \<and> Fin m \<in> set (Fin y # ys) \<and> (\<forall>x. Fin x \<in> set (Fin y # ys) \<longrightarrow> x \<le> m)"
proof (induction ys arbitrary: y)
  case Nil
  then show ?case by simp
next
  case (Cons a ys)
  then obtain z where a: "a = Fin z" by (cases a) auto
  from Cons.prems have fin: "\<forall>x\<in>set ys. is_fin x" by simp
  show ?case
  proof (cases "y < z")
    case True
    from Cons.IH [OF fin, of z] True a show ?thesis by fastforce
  next
    case False
    from Cons.IH [OF fin, of y] False a show ?thesis by fastforce
  qed
qed

lemma col_min_fin:
  assumes "\<forall>x\<in>set xs. is_fin x" and "xs \<noteq> []"
  shows "\<exists>m. col_min xs = Fin m \<and> Fin m \<in> set xs \<and> (\<forall>x. Fin x \<in> set xs \<longrightarrow> m \<le> x)"
proof -
  from assms obtain y ys where xs: "xs = Fin y # ys"
    by (cases xs; cases "hd xs") auto
  with assms have "\<forall>x\<in>set ys. is_fin x" by simp
  from foldl_min_fin [OF this, of y] show ?thesis
    using assms(1) by (simp add: col_min_def filter_not_NaN_fin xs)
qed

lemma col_max_fin:
  assumes "\<forall>x\<in>set xs. is_fin x" and "xs \<noteq> []"
  shows "\<exists>m. col_max xs = Fin m \<and> Fin m \<in> set xs \<and> (\<forall>x. Fin x \<in> set xs \<longrightarrow> x \<le> m)"
proof -
  from assms obtain y ys where xs: "xs = Fin y # ys"
    by (cases xs; cases "hd xs") auto
  with assms have "\<forall>x\<in>set ys. is_fin x" by simp
  from foldl_max_fin [OF this, of y] show ?thesis
    using assms(1) by (simp add: col_max_def filter_not_NaN_fin xs)
qed

lemma minmax_unit:
  fixes x :: real
  assumes "mn \<le> x" "x \<le> mx" "mn < mx"
  shows "0 \<le> (x - mn) / (mx - mn)" and "(x - mn) / (mx - mn) \<le> 1"
  using assms by (simp_all add: divide_le_eq)

text \<open>The columns of the scored table of one buffer, read back from its rows.\<close>

lemma functionality_score_buffer:
  "map functionality (score_buffer b E F) = map snd (merged_df b E F)"
  by (simp add: score_buffer_def make_scored_def Let_def)

lemma nec_score_buffer:
  "map normalized_efficiency_change (score_buffer b E F) =
   map (\<lambda>ef. f64_abs (change_in_efficiency (fst ef))) (merged_df b E F)"
  by (simp add: score_buffer_def make_scored_def Let_def)

lemma score_buffer_rows:
  "score_buffer b E F =
   map (make_scored b
          (col_min (map functionality (score_buffer b E F)))
          (col_max (map functionality (score_buffer b E F)))
          (col_min (map normalized_efficiency_change (score_buffer b E F)))
          (col_max (map normalized_efficiency_change (score_buffer b E F))))
       (merged_df b E F)"
  unfolding functionality_score_buffer nec_score_buffer
  by (simp add: score_buffer_def Let_def)


lemma is_fin_f64_round: "is_fin (f64_round y) \<longleftrightarrow> \<bar>y\<bar> < overflow_threshold"
  using overflow_threshold_large by (auto simp: f64_round_def)

lemma normalised_fin:
  assumes "mn \<le> x" "x \<le> mx" "mn < mx" "mx - mn < overflow_threshold"
  shows "f64_div (f64_sub (Fin x) (Fin mn)) (f64_sub (Fin mx) (Fin mn)) =
           Fin ((x - mn) / (mx - mn))"
proof -
  from assms have "f64_round (x - mn) = Fin (x - mn)" "f64_round (mx - mn) = Fin (mx - mn)"
    by (simp_all add: f64_round_fin)
  moreover from assms have "\<bar>(x - mn) / (mx - mn)\<bar> \<le> 1"
    by (simp add: divide_le_eq)
  then have "f64_round ((x - mn) / (mx - mn)) = Fin ((x - mn) / (mx - mn))"
    by (intro f64_round_small) linarith
  ultimately show ?thesis
    using assms by (simp add: f64_sub_def)
qed

lemma make_scored_unit:
  assumes "mnf \<le> x" "x \<le> mxf" "mnf < mxf" "mne \<le> \<bar>c\<bar>" "\<bar>c\<bar> \<le> mxe" "mne < mxe"
    and "mxf - mnf < overflow_threshold" and "mxe - mne < overflow_threshold"
    and "snd ef = Fin x" and "change_in_efficiency (fst ef) = Fin c"
  shows "\<exists>s. criticality_score (make_scored b (Fin mnf) (Fin mxf) (Fin mne) (Fin mxe) ef) = Fin s
            \<and> 0 \<le> s \<and> s \<le> 1"
proof -
  let ?u = "(x - mnf) / (mxf - mnf)" and ?v = "(\<bar>c\<bar> - mne) / (mxe - mne)"
  from assms have u: "0 \<le> ?u" "?u \<le> 1" by (auto intro: minmax_unit)
  from assms have v: "0 \<le> ?v" "?v \<le> 1" by (auto intro: minmax_unit)
  have nf: "f64_div (f64_sub (Fin x) (Fin mnf)) (f64_sub (Fin mxf) (Fin mnf)) = Fin ?u"
    using assms by (intro normalised_fin)
  have ne: "f64_div (f64_sub (Fin \<bar>c\<bar>) (Fin mne)) (f64_sub (Fin mxe) (Fin mne)) = Fin ?v"
    using assms by (intro normalised_fin)
  from u have "f64_round (1 - ?u) = Fin (1 - ?u)"
    by (intro f64_round_small) linarith
  then have one: "f64_sub (Fin 1) (Fin ?u) = Fin (1 - ?u)"
    by (simp add: f64_sub_def)
  from u v have "f64_round (1 - ?u + ?v) = Fin (1 - ?u + ?v)"
    by (intro f64_round_small) linarith
  then have two: "f64_add (Fin (1 - ?u)) (Fin ?v) = Fin (1 - ?u + ?v)"
    by simp
  from u v have "0 \<le> (1 - ?u + ?v) / 2" "(1 - ?u + ?v) / 2 \<le> 1"
    by simp_all
  then have "f64_round ((1 - ?u + ?v) / 2) = Fin ((1 - ?u + ?v) / 2)"
    by (intro f64_round_small) linarith
  then have half: "f64_div (Fin (1 - ?u + ?v)) (Fin 2) = Fin ((1 - ?u + ?v) / 2)"
    by simp
  have "criticality_score (make_scored b (Fin mnf) (Fin mxf) (Fin mne) (Fin mxe) ef)
        = f64_div (f64_add (f64_sub (Fin 1)
            (f64_div (f64_sub (Fin x) (Fin mnf)) (f64_sub (Fin mxf) (Fin mnf))))
            (f64_div (f64_sub (Fin \<bar>c\<bar>) (Fin mne)) (f64_sub (Fin mxe) (Fin mne)))) (Fin 2)"
    using assms(9,10) by (simp add: make_scored_def Let_def)
  then have "criticality_score (make_scored b (Fin mnf) (Fin mxf) (Fin mne) (Fin mxe) ef)
        = Fin ((1 - ?u + ?v) / 2)"
    by (simp only: nf ne one two half)
  moreover have "0 \<le> (1 - ?u + ?v) / 2" "(1 - ?u + ?v) / 2 \<le> 1"
    using u v by simp_all
  ultimately show ?thesis by blast
qed

lemma scenario_scores:
  "score_buffer 5 scenario_efficiency_df scenario_functionality_df =
     [\<lparr>bridge_iop = ''B1'', osm_id = ''B1'', highway_type = ''primary'', buffer_distance = 5,
       original_global_efficiency = Fin 0.50, new_global_efficiency = Fin 0.48,
       change_in_efficiency = Fin (- 0.02), functionality = Fin 80,
       normalized_efficiency_change = Fin 0.02, norm_func = Fin 1, norm_eff = Fin 1,
       criticality_score = Fin 1, relative_efficiency_change = Fin (- 0.04),
       absolute_relative_efficiency_change = Fin 0.04\<rparr>,
      \<lparr>bridge_iop = ''B2'', osm_id = ''B2'', highway_type = ''primary'', buffer_distance = 5,
       original_global_efficiency = Fin 0.50, new_global_efficiency = Fin 0.49,
       change_in_efficiency = Fin (- 0.01), functionality = Fin 90,
       normalized_efficiency_change = Fin 0.01, norm_func = Fin 0, norm_eff = Fin 0,
       criticality_score = Fin 0, relative_efficiency_change = Fin (- 0.02),
       absolute_relative_efficiency_change = Fin 0.02\<rparr>]"
  by (simp add: scenario_efficiency_df_def scenario_functionality_df_def scorer_defs)




lemma f64_add_NaN_right [simp]: "f64_add x NaN = NaN"
  by (cases x) simp_all

lemma f64_div_NaN_right [simp]: "f64_div x NaN = NaN"
  by (cases x) simp_all

lemma col_constant:
  assumes "\<forall>x\<in>set xs. x = Fin c" and "xs \<noteq> []"
  shows "col_min xs = Fin c" and "col_max xs = Fin c"
proof -
  from assms(1) have fin: "\<forall>x\<in>set xs. is_fin x" by auto
  from col_min_fin [OF fin assms(2)] assms(1) show "col_min xs = Fin c" by auto
  from col_max_fin [OF fin assms(2)] assms(1) show "col_max xs = Fin c" by auto
qed


lemma f64_div_zero_not_fin: "\<not> is_fin (f64_div x (Fin 0))"
  by (cases x) simp_all

lemma f64_abs_not_fin: "\<not> is_fin x \<Longrightarrow> \<not> is_fin (f64_abs x)"
  by (cases x) simp_all



text \<open>
  C10. The relative efficiency change of every joined row is the change in efficiency
  divided by the original global efficiency, with no test of the divisor. In a row whose
  original global efficiency is zero the division is by zero: the relative change and
  its absolute value are an infinity or NaN.
\<close>

theorem relative_change_unguarded:
  assumes r: "r \<in> set (score_buffer buffer E F)"
  shows "relative_efficiency_change r =
           f64_div (change_in_efficiency r) (original_global_efficiency r)
       \<and> absolute_relative_efficiency_change r = f64_abs (relative_efficiency_change r)
       \<and> (original_global_efficiency r = Fin 0 \<longrightarrow>
            \<not> is_fin (relative_efficiency_change r)
            \<and> \<not> is_fin (absolute_relative_efficiency_change r))"
proof -
  from r obtain a b c d ef where ef: "r = make_scored buffer a b c d ef"
    by (subst (asm) score_buffer_rows) auto
  then have rel: "relative_efficiency_change r =
      f64_div (change_in_efficiency r) (original_global_efficiency r)"
    and ab: "absolute_relative_efficiency_change r = f64_abs (relative_efficiency_change r)"
    by (simp_all add: make_scored_def Let_def)
  then show ?thesis
    by (auto simp: f64_div_zero_not_fin f64_abs_not_fin)
qed


theorem relative_change_unguarded_witness:
  "original_global_efficiency (hd (score_buffer 5 zero_original_df scenario_functionality_df)) = Fin 0
   \<and> relative_efficiency_change (hd (score_buffer 5 zero_original_df scenario_functionality_df)) =
       f64_div (Fin 0) (Fin 0)
   \<and> \<not> is_fin (relative_efficiency_change
          (hd (score_buffer 5 zero_original_df scenario_functionality_df)))
   \<and> \<not> is_fin (absolute_relative_efficiency_change
          (hd (score_buffer 5 zero_original_df scenario_functionality_df)))"
proof -
  let ?G = "score_buffer 5 zero_original_df scenario_functionality_df"
  note defs = zero_original_df_def scenario_functionality_df_def scorer_defs
  have g: "hd ?G \<in> set ?G"
    by (simp add: defs)
  have z: "original_global_efficiency (hd ?G) = Fin 0"
    and c: "change_in_efficiency (hd ?G) = Fin 0"
    by (simp_all add: defs)
  from relative_change_unguarded [OF g] z c show ?thesis
    by simp
qed

text \<open>Regrouping the left table by key permutes its rows.\<close>

lemma indicator_sum_distinct:
  "distinct ks \<Longrightarrow>
   (\<Sum>k\<leftarrow>ks. if x = k then {#e#} else {#}) = (if x \<in> set ks then {#e#} else {#})"
  by (induction ks) auto

lemma mset_regroup:
  assumes "distinct ks" and "key ` set xs \<subseteq> set ks"
  shows "mset (concat (map (\<lambda>k. filter (\<lambda>e. key e = k) xs) ks)) = mset xs"
  using assms(2)
proof (induction xs)
  case Nil
  then show ?case by (simp add: mset_concat comp_def)
next
  case (Cons e xs)
  have "mset (concat (map (\<lambda>k. filter (\<lambda>e. key e = k) (e # xs)) ks)) =
        (\<Sum>k\<leftarrow>ks. (if key e = k then {#e#} else {#}) + mset (filter (\<lambda>e. key e = k) xs))"
    by (simp add: mset_concat comp_def) (rule arg_cong [of _ _ sum_list], auto)
  also have "\<dots> = (\<Sum>k\<leftarrow>ks. if key e = k then {#e#} else {#})
                  + mset (concat (map (\<lambda>k. filter (\<lambda>e. key e = k) xs) ks))"
    by (simp add: sum_list_addf mset_concat comp_def)
  also have "\<dots> = {#e#} + mset xs"
    using Cons assms(1) by (simp add: indicator_sum_distinct)
  finally show ?case by simp
qed

lemma mset_group_by_key: "mset (group_by_key df) = mset df"
  unfolding group_by_key_def
  by (rule mset_regroup) (simp_all add: first_seen_def)

lemma set_group_by_key: "set (group_by_key df) = set df"
  by (metis mset_group_by_key set_mset_mset)

lemma length_group_by_key: "length (group_by_key df) = length df"
  by (metis mset_group_by_key size_mset)

lemma distinct_group_by_key:
  "distinct (map bridge_iop (group_by_key df)) = distinct (map bridge_iop df)"
proof -
  have "mset (map bridge_iop (group_by_key df)) = mset (map bridge_iop df)"
    by (simp add: mset_group_by_key)
  then show ?thesis by (rule mset_eq_imp_distinct_iff)
qed

text \<open>The pairs of a list of left rows, then of the join.\<close>

lemma join_in_order_Cons:
  "join_in_order (e # L) F =
     map (\<lambda>f. (e, functionality_pct f)) (filter (\<lambda>f. iop f = bridge_iop e) F) @ join_in_order L F"
  by (simp add: join_in_order_def)

lemma set_join_in_order:
  "set (join_in_order L F) =
     {(e, functionality_pct f) | e f. e \<in> set L \<and> f \<in> set F \<and> iop f = bridge_iop e}"
  by (auto simp: join_in_order_def)

lemma set_merge_inner:
  "set (merge_inner L F) =
     {(e, functionality_pct f) | e f. e \<in> set L \<and> f \<in> set F \<and> iop f = bridge_iop e}"
  by (simp add: merge_inner_def set_join_in_order set_group_by_key)

lemma unique_key_filter:
  "distinct (map iop F) \<Longrightarrow> length (filter (\<lambda>f. iop f = k) F) \<le> 1"
proof (induction F)
  case Nil
  then show ?case by simp
next
  case (Cons f F)
  from Cons.prems have "iop f \<notin> iop ` set F" by simp
  then have "\<forall>x\<in>set F. iop x \<noteq> iop f" by (metis imageI)
  then have "iop f = k \<Longrightarrow> filter (\<lambda>f. iop f = k) F = []"
    by (simp add: filter_empty_conv)
  with Cons show ?case by auto
qed

lemma length_join_in_order:
  "distinct (map iop F) \<Longrightarrow> length (join_in_order L F) \<le> length L"
proof (induction L)
  case Nil
  then show ?case by (simp add: join_in_order_def)
next
  case (Cons e L)
  from unique_key_filter [OF Cons.prems, of "bridge_iop e"] Cons show ?case
    by (simp add: join_in_order_Cons)
qed

lemma length_merge_inner_left:
  "distinct (map iop F) \<Longrightarrow> length (merge_inner L F) \<le> length L"
  using length_join_in_order [of F "group_by_key L"]
  by (simp add: merge_inner_def length_group_by_key)

lemma distinct_join_in_order_keys:
  "distinct (map iop F) \<Longrightarrow> distinct (map bridge_iop L) \<Longrightarrow>
   distinct (map (\<lambda>ef. bridge_iop (fst ef)) (join_in_order L F))"
proof (induction L)
  case Nil
  then show ?case by (simp add: join_in_order_def)
next
  case (Cons e L)
  let ?hit = "filter (\<lambda>f. iop f = bridge_iop e) F"
  from unique_key_filter [OF Cons.prems(1), of "bridge_iop e"]
  have "length ?hit \<le> 1" .
  then have one: "distinct (map (\<lambda>f. bridge_iop e) ?hit)"
    by (cases ?hit) auto
  have other: "bridge_iop e \<notin> (\<lambda>ef. bridge_iop (fst ef)) ` set (join_in_order L F)"
    using Cons.prems(2) by (auto simp: set_join_in_order)
  from Cons one other show ?case
    by (auto simp: join_in_order_Cons comp_def)
qed

lemma distinct_merge_inner_keys:
  "distinct (map iop F) \<Longrightarrow> distinct (map bridge_iop L) \<Longrightarrow>
   distinct (map (\<lambda>ef. bridge_iop (fst ef)) (merge_inner L F))"
  using distinct_join_in_order_keys [of F "group_by_key L"]
  by (simp add: merge_inner_def distinct_group_by_key)

lemma length_merge_inner_right:
  assumes "distinct (map iop F)" and "distinct (map bridge_iop L)"
  shows "length (merge_inner L F) \<le> length F"
proof -
  let ?ks = "map (\<lambda>ef. bridge_iop (fst ef)) (merge_inner L F)"
  have "set ?ks \<subseteq> set (map iop F)"
    by (force simp: set_merge_inner)
  then have "card (set ?ks) \<le> card (set (map iop F))"
    by (intro card_mono) auto
  with distinct_merge_inner_keys [OF assms] assms(1) show ?thesis
    by (simp add: distinct_card del: set_map)
qed

text \<open>
  C6. Every row of the joined table of a buffer distance pairs an efficiency row of that
  buffer distance with a functionality row of the same bridge, and every such pair gives
  a row: a bridge that is in one table only gives none. When the bridge is unique in the
  functionality table, the joined table has at most as many rows as the efficiency table
  has for the buffer distance. It has at most as many rows as the functionality table
  when, in addition, no bridge occurs twice among the efficiency rows of the buffer
  distance; without that, a bridge listed twice is joined twice.
\<close>

theorem merged_rows_inner_join:
  assumes uniq: "distinct (map iop F)"
  shows "set (merged_df b E F) =
           {(e, functionality_pct f) | e f.
              e \<in> set E \<and> buffer_distance e = b \<and> f \<in> set F \<and> iop f = bridge_iop e}
       \<and> length (merged_df b E F) \<le> length (filter (\<lambda>e. buffer_distance e = b) E)
       \<and> (distinct (map bridge_iop (filter (\<lambda>e. buffer_distance e = b) E)) \<longrightarrow>
            length (merged_df b E F)
              \<le> min (length F) (length (filter (\<lambda>e. buffer_distance e = b) E)))"
  using length_merge_inner_left [OF uniq, of "filter (\<lambda>e. buffer_distance e = b) E"]
    length_merge_inner_right [OF uniq, of "filter (\<lambda>e. buffer_distance e = b) E"]
  by (auto simp: merged_df_def set_merge_inner)

theorem merged_rows_count_counterexample:
  "distinct (map iop one_bridge_df)
   \<and> \<not> length (merged_df 5 two_segments_df one_bridge_df)
        \<le> min (length one_bridge_df)
              (length (filter (\<lambda>e. buffer_distance e = 5) two_segments_df))"
  by (simp add: one_bridge_df_def two_segments_df_def merged_df_def merge_inner_def
        join_in_order_def group_by_key_def first_seen_def
        efficiency_of_def functionality_of_def)

theorem merged_rows_inner_join_witness:
  "distinct (map iop scenario_functionality_df)
   \<and> distinct (map bridge_iop (filter (\<lambda>e. buffer_distance e = 5) scenario_efficiency_df))
   \<and> length (merged_df 5 scenario_efficiency_df scenario_functionality_df) \<le> 2
   \<and> set (merged_df 5 scenario_efficiency_df scenario_functionality_df) =
       {(e, functionality_pct f) | e f.
          e \<in> set scenario_efficiency_df \<and> buffer_distance e = 5
          \<and> f \<in> set scenario_functionality_df \<and> iop f = bridge_iop e}"
proof -
  note defs = scenario_efficiency_df_def scenario_functionality_df_def efficiency_of_def
    functionality_of_def
  have u: "distinct (map iop scenario_functionality_df)"
    and d: "distinct (map bridge_iop (filter (\<lambda>e. buffer_distance e = 5) scenario_efficiency_df))"
    by (simp_all add: defs)
  have n: "min (length scenario_functionality_df)
             (length (filter (\<lambda>e. buffer_distance e = 5) scenario_efficiency_df)) = 2"
    by (simp add: defs)
  from merged_rows_inner_join [OF u, of 5 scenario_efficiency_df] u d n show ?thesis
    by simp
qed

lemma buffer_distances_sorted:
  "sorted (buffer_distances E)" "distinct (buffer_distances E)"
  "set (buffer_distances E) = buffer_distance ` set E"
  by (simp_all add: buffer_distances_def)

lemma buffer_score_buffer:
  "r \<in> set (score_buffer b E F) \<Longrightarrow> buffer_distance r = b"
  by (auto simp: score_buffer_def make_scored_def Let_def)

lemma bridge_score_buffer:
  "map bridge_iop (score_buffer b E F) = map (\<lambda>ef. bridge_iop (fst ef)) (merged_df b E F)"
  by (simp add: score_buffer_def make_scored_def Let_def)

lemma score_buffer_absent:
  "b \<notin> buffer_distance ` set E \<Longrightarrow> score_buffer b E F = []"
proof -
  assume "b \<notin> buffer_distance ` set E"
  then have "filter (\<lambda>e. buffer_distance e = b) E = []"
    by (auto simp: filter_empty_conv)
  then show ?thesis
    by (simp add: score_buffer_def merged_df_def merge_inner_def join_in_order_def
          group_by_key_def first_seen_def)
qed

text \<open>Groups tagged with their key, concatenated along a list of keys.\<close>

lemma filter_concat_groups:
  assumes tag: "\<And>b r. r \<in> set (g b) \<Longrightarrow> key r = b" and "distinct bs"
  shows "filter (\<lambda>r. key r = b) (concat (map g bs)) = (if b \<in> set bs then g b else [])"
  using assms(2)
proof (induction bs)
  case Nil
  then show ?case by simp
next
  case (Cons a bs)
  have same: "filter (\<lambda>r. key r = b) (g b) = g b"
    using tag by (auto simp: filter_id_conv)
  have other: "filter (\<lambda>r. key r = b) (g a) = []" if "a \<noteq> b"
    using tag that by (auto simp: filter_empty_conv)
  from Cons same other show ?case by auto
qed

lemma sorted_concat_groups:
  fixes key :: "'a \<Rightarrow> real"
  assumes tag: "\<And>b r. r \<in> set (g b) \<Longrightarrow> key r = b" and "sorted bs"
  shows "sorted (map key (concat (map g bs)))"
  using assms(2)
proof (induction bs)
  case Nil
  then show ?case by simp
next
  case (Cons a bs)
  have here: "map key (g a) = replicate (length (g a)) a"
    using tag by (auto simp: map_replicate_const [symmetric] intro: map_cong)
  have later: "\<forall>x\<in>set (map key (concat (map g bs))). a \<le> x"
    using Cons.prems tag by auto
  from Cons here later show ?case
    by (auto simp: sorted_append)
qed

lemma distinct_concat_groups:
  assumes tag: "\<And>b r. r \<in> set (g b) \<Longrightarrow> key r = b"
    and each: "\<And>b. distinct (map name (g b))" and "distinct bs"
  shows "distinct (map (\<lambda>r. (name r, key r)) (concat (map g bs)))"
  using assms(3)
proof (induction bs)
  case Nil
  then show ?case by simp
next
  case (Cons a bs)
  have here: "distinct (map (\<lambda>r. (name r, key r)) (g a))"
    using each [of a] by (auto simp: distinct_map inj_on_def)
  have apart: "set (map (\<lambda>r. (name r, key r)) (g a))
                 \<inter> set (map (\<lambda>r. (name r, key r)) (concat (map g bs))) = {}"
    using Cons.prems tag by fastforce
  from Cons here apart show ?case
    by simp
qed

lemma buffer_scores_all_scores:
  "buffer_scores (all_scores_df E F) b = score_buffer b E F"
proof -
  have "buffer_scores (all_scores_df E F) b =
          (if b \<in> set (buffer_distances E) then score_buffer b E F else [])"
    unfolding buffer_scores_def all_scores_df_def
    by (rule filter_concat_groups) (auto simp: buffer_score_buffer buffer_distances_sorted)
  then show ?thesis
    by (simp add: buffer_distances_sorted score_buffer_absent)
qed

lemma distinct_bridges_of_buffer:
  assumes "distinct (map (\<lambda>e. (bridge_iop e, buffer_distance e)) E)"
  shows "distinct (map bridge_iop (filter (\<lambda>e. buffer_distance e = b) E))"
  using assms by (induction E) (auto simp: image_iff)

lemma score_buffer_derived:
  assumes "r \<in> set (score_buffer b E F)"
  shows "derived_fields (score_buffer b E F) r"
proof -
  from assms obtain ef where
    "r = make_scored b (col_min (map functionality (score_buffer b E F)))
           (col_max (map functionality (score_buffer b E F)))
           (col_min (map normalized_efficiency_change (score_buffer b E F)))
           (col_max (map normalized_efficiency_change (score_buffer b E F))) ef"
    by (subst (asm) score_buffer_rows) auto
  then show ?thesis
    by (simp add: derived_fields_def make_scored_def Let_def)
qed

lemma merged_df_buffer: "ef \<in> set (merged_df b E F) \<Longrightarrow> buffer_distance (fst ef) = b"
  by (auto simp: merged_df_def set_merge_inner)

lemma score_buffer_pairs:
  "map (\<lambda>r. (efficiency_row.truncate r, functionality r)) (score_buffer b E F) = merged_df b E F"
proof -
  have "(efficiency_row.truncate (make_scored b m1 m2 m3 m4 ef),
         functionality (make_scored b m1 m2 m3 m4 ef)) = ef"
    if "ef \<in> set (merged_df b E F)" for ef m1 m2 m3 m4
    using merged_df_buffer [OF that]
    by (cases ef) (simp add: make_scored_def Let_def efficiency_row.defs)
  then show ?thesis
    by (simp add: score_buffer_def Let_def map_idI)
qed

lemma pd_concat_all_scores:
  "pd_concat (all_criticality_scores E F) =
     (if E = [] then Inl ValueError else Inr (all_scores_df E F))"
proof -
  have "buffer_distances E = [] \<longleftrightarrow> E = []"
    by (metis buffer_distances_sorted(3) image_is_empty set_empty)
  then show ?thesis
    by (simp add: pd_concat_def all_criticality_scores_def all_scores_df_def)
qed



lemma two_buffers_distances: "buffer_distances two_buffers_df = [5, 10]"
  by (simp add: buffer_distances_def two_buffers_df_def efficiency_of_def)

lemma two_buffers_pairs:
  "map (\<lambda>r. (bridge_iop r, buffer_distance r))
     (all_scores_df two_buffers_df scenario_functionality_df) =
   [(''B1'', 5), (''B2'', 5), (''B1'', 10), (''B2'', 10)]"
  by (simp add: all_scores_df_def two_buffers_distances)
     (simp add: two_buffers_df_def scenario_functionality_df_def scorer_defs)

lemma two_buffers_scores:
  "map criticality_score (all_scores_df two_buffers_df scenario_functionality_df) =
   [Fin 1, Fin 0, Fin 0.5, Fin 0.5]"
  by (simp add: all_scores_df_def two_buffers_distances)
     (simp add: two_buffers_df_def scenario_functionality_df_def scorer_defs)



section \<open>Properties of the Reporter\<close>

text \<open>The stable algorithm meets the library's promise on every table.\<close>

lemma f64_not_less_trans:
  "a \<noteq> NaN \<Longrightarrow> b \<noteq> NaN \<Longrightarrow> c \<noteq> NaN \<Longrightarrow>
   \<not> f64_less a b \<Longrightarrow> \<not> f64_less b c \<Longrightarrow> \<not> f64_less a c"
  by (cases a; cases b; cases c) auto

lemma f64_less_asym: "f64_less a b \<Longrightarrow> \<not> f64_less b a"
  by (cases a; cases b) auto

lemma f64_less_irrefl [simp]: "\<not> f64_less a a"
  by (cases a) auto

lemma f64_less_NaN_right [simp]: "\<not> f64_less a NaN"
  by (cases a) auto

lemma mset_insert_desc: "mset (insert_desc r xs) = add_mset r (mset xs)"
  by (induction xs) auto

lemma set_insert_desc: "set (insert_desc r xs) = insert r (set xs)"
  by (induction xs) auto

lemma sorted_insert_desc:
  assumes "sorted_wrt (\<lambda>x y. \<not> f64_less (criticality_score x) (criticality_score y)) xs"
    and "\<forall>x\<in>set (r # xs). criticality_score x \<noteq> NaN"
  shows "sorted_wrt (\<lambda>x y. \<not> f64_less (criticality_score x) (criticality_score y))
           (insert_desc r xs)"
  using assms
proof (induction xs)
  case Nil
  then show ?case by simp
next
  case (Cons x xs)
  show ?case
  proof (cases "f64_less (criticality_score r) (criticality_score x)")
    case True
    with Cons show ?thesis
      by (auto simp: set_insert_desc dest: f64_less_asym)
  next
    case False
    have "\<not> f64_less (criticality_score r) (criticality_score y)" if "y \<in> set xs" for y
      using f64_not_less_trans [of "criticality_score r" "criticality_score x" "criticality_score y"]
        False Cons.prems that by auto
    with False Cons.prems show ?thesis by auto
  qed
qed

lemma sorted_foldr_insert_desc:
  "\<forall>x\<in>set xs. criticality_score x \<noteq> NaN \<Longrightarrow>
   sorted_wrt (\<lambda>x y. \<not> f64_less (criticality_score x) (criticality_score y))
     (foldr insert_desc xs [])"
proof (induction xs)
  case Nil
  then show ?case by simp
next
  case (Cons r xs)
  have "set (foldr insert_desc xs []) = set xs"
    by (induction xs) (simp_all add: set_insert_desc)
  with Cons show ?case
    by (simp add: sorted_insert_desc)
qed

lemma mset_foldr_insert_desc: "mset (foldr insert_desc xs []) = mset xs"
  by (induction xs) (simp_all add: mset_insert_desc)

lemma sort_values_stable_sorted: "sorted_descending df (sort_values_stable df)"
proof -
  let ?ok = "filter (\<lambda>r. criticality_score r \<noteq> NaN) df"
  let ?nan = "filter (\<lambda>r. criticality_score r = NaN) df"
  have perm: "mset (sort_values_stable df) = mset df"
    by (induction df) (simp_all add: sort_values_stable_def mset_foldr_insert_desc)
  have set_ok: "set (foldr insert_desc ?ok []) = set ?ok"
    by (metis mset_foldr_insert_desc set_mset_mset)
  have "sorted_wrt (\<lambda>x y. \<not> f64_less (criticality_score x) (criticality_score y))
          (foldr insert_desc ?ok [])"
    by (rule sorted_foldr_insert_desc) simp
  then have "sorted_wrt (\<lambda>x y. \<not> f64_less (criticality_score x) (criticality_score y)
                \<and> (criticality_score y = NaN \<or> criticality_score x \<noteq> NaN))
          (foldr insert_desc ?ok [])"
    by (rule sorted_wrt_mono_rel [rotated]) (simp add: set_ok)
  moreover have "sorted_wrt (\<lambda>x y. \<not> f64_less (criticality_score x) (criticality_score y)
                \<and> (criticality_score y = NaN \<or> criticality_score x \<noteq> NaN)) ?nan"
    by (induction df) auto
  ultimately have "sorted_wrt (\<lambda>x y. \<not> f64_less (criticality_score x) (criticality_score y)
                \<and> (criticality_score y = NaN \<or> criticality_score x \<noteq> NaN))
          (sort_values_stable df)"
    by (auto simp: sort_values_stable_def sorted_wrt_append set_ok)
  then have "descending (map criticality_score (sort_values_stable df))"
    by (simp add: descending_def sorted_wrt_map)
  with perm show ?thesis
    by (simp add: sorted_descending_def)
qed

text \<open>The stable algorithm keeps the rows of every score in their order.\<close>

lemma filter_insert_desc:
  "filter (\<lambda>x. criticality_score x = s) (insert_desc r xs) =
     (if criticality_score r = s then r # filter (\<lambda>x. criticality_score x = s) xs
      else filter (\<lambda>x. criticality_score x = s) xs)"
  by (induction xs) auto

lemma filter_foldr_insert_desc:
  "filter (\<lambda>x. criticality_score x = s) (foldr insert_desc xs []) =
     filter (\<lambda>x. criticality_score x = s) xs"
  by (induction xs) (simp_all add: filter_insert_desc)

lemma filter_sort_values_stable:
  "filter (\<lambda>x. criticality_score x = s) (sort_values_stable df) =
     filter (\<lambda>x. criticality_score x = s) df"
proof (cases "s = NaN")
  case True
  have "filter (\<lambda>x. criticality_score x = NaN) (filter (\<lambda>r. criticality_score r \<noteq> NaN) df) = []"
    by (simp add: filter_empty_conv)
  with True show ?thesis
    by (simp add: sort_values_stable_def filter_foldr_insert_desc)
next
  case False
  then have "filter (\<lambda>x. criticality_score x = s) (filter (\<lambda>r. criticality_score r = NaN) df) = []"
    by (auto simp: filter_empty_conv)
  moreover from False
  have "filter (\<lambda>x. criticality_score x = s) (filter (\<lambda>r. criticality_score r \<noteq> NaN) df) =
        filter (\<lambda>x. criticality_score x = s) df"
    by (auto intro: filter_cong)
  ultimately show ?thesis
    by (simp add: sort_values_stable_def filter_foldr_insert_desc)
qed

lemma filter_take_prefix:
  "filter P (take n xs) = take (length (filter P (take n xs))) (filter P xs)"
proof -
  have "filter P xs = filter P (take n xs) @ filter P (drop n xs)"
    by (metis append_take_drop_id filter_append)
  then show ?thesis by simp
qed

lemma stable_ties_in_row_order:
  "ties_in_row_order df (take n (sort_values_stable df))"
  unfolding ties_in_row_order_def list_all_iff Let_def
proof
  fix r
  show "filter (\<lambda>x. criticality_score x = criticality_score r) (take n (sort_values_stable df)) =
        take (length (filter (\<lambda>x. criticality_score x = criticality_score r)
                        (take n (sort_values_stable df))))
             (filter (\<lambda>x. criticality_score x = criticality_score r) df)"
    using filter_take_prefix
            [of "\<lambda>x. criticality_score x = criticality_score r" n "sort_values_stable df"]
    by (simp only: filter_sort_values_stable)
qed

lemma summary_bridges:
  "map s_bridge_iop (summary_rows sort_values all_scores bs) =
     concat (map (\<lambda>b. map bridge_iop (top_bridges sort_values all_scores b)) bs)"
  by (induction bs) (simp_all add: summary_rows_def summary_of_def comp_def)

lemma count_list_concat:
  "count_list (concat xss) k = sum_list (map (\<lambda>xs. count_list xs k) xss)"
  by (induction xss) simp_all

lemma count_list_at_most_once:
  "count_list xs k \<le> 1 \<Longrightarrow> count_list xs k = (if k \<in> set xs then 1 else 0)"
  by (metis count_list_0_iff le_SucE le_zero_eq One_nat_def)

lemma sum_list_indicator:
  "sum_list (map (\<lambda>x. if P x then 1 else 0) xs) = length (filter P xs)"
  by (induction xs) simp_all

lemma count_groups:
  assumes "\<forall>b\<in>set bs. count_list (ids b) k \<le> 1"
  shows "count_list (concat (map ids bs)) k = length (filter (\<lambda>b. k \<in> set (ids b)) bs)"
proof -
  have "map (\<lambda>b. count_list (ids b) k) bs = map (\<lambda>b. if k \<in> set (ids b) then 1 else 0) bs"
    using assms by (intro map_cong) (auto simp: count_list_at_most_once)
  then have "sum_list (map (\<lambda>b. count_list (ids b) k) bs) =
             sum_list (map (\<lambda>b. if k \<in> set (ids b) then 1 else 0) bs)"
    by (rule arg_cong)
  then show ?thesis
    by (simp only: count_list_concat map_map comp_def sum_list_indicator)
qed

text \<open>
  C8. When a bridge has at most one row in the selection of every buffer distance, its
  frequency, the number of its rows in the summary table, is the number of buffer
  distances in whose selection it appears (the bridge has no entry in the frequency table
  when there is none). A bridge in the selection of every one of 11 buffer distances has
  frequency 11.
\<close>

theorem bridge_frequency_counts_groups:
  assumes once: "\<forall>b\<in>set (buffer_distances E).
      count_list (map bridge_iop (top_bridges sort_values (all_scores_df E F) b)) k \<le> 1"
  shows "bridge_frequency sort_values E F k =
           (if \<exists>b\<in>set (buffer_distances E).
                 k \<in> bridge_iop ` set (top_bridges sort_values (all_scores_df E F) b)
            then Some (card {b \<in> set (buffer_distances E).
                   k \<in> bridge_iop ` set (top_bridges sort_values (all_scores_df E F) b)})
            else None)
       \<and> (length (buffer_distances E) = 11
            \<and> (\<forall>b\<in>set (buffer_distances E).
                  k \<in> bridge_iop ` set (top_bridges sort_values (all_scores_df E F) b)) \<longrightarrow>
            bridge_frequency sort_values E F k = Some 11)"
proof -
  let ?bs = "buffer_distances E"
  let ?ids = "\<lambda>b. map bridge_iop (top_bridges sort_values (all_scores_df E F) b)"
  let ?col = "map s_bridge_iop (summary_df sort_values E F)"
  let ?P = "\<lambda>b. k \<in> bridge_iop ` set (top_bridges sort_values (all_scores_df E F) b)"
  have col: "?col = concat (map ?ids ?bs)"
    by (simp add: summary_df_def summary_bridges)
  have "count_list ?col k = length (filter (\<lambda>b. k \<in> set (?ids b)) ?bs)"
    unfolding col using once by (rule count_groups)
  also have "\<dots> = card {b \<in> set ?bs. ?P b}"
    using distinct_length_filter [OF buffer_distances_sorted(2), of "\<lambda>b. k \<in> set (?ids b)" E]
    by (simp add: Int_def conj_commute)
  finally have n: "count_list ?col k = card {b \<in> set ?bs. ?P b}" .
  have mem: "k \<in> set ?col \<longleftrightarrow> (\<exists>b\<in>set ?bs. ?P b)"
    by (auto simp: col)
  have freq: "bridge_frequency sort_values E F k =
      (if \<exists>b\<in>set ?bs. ?P b then Some (card {b \<in> set ?bs. ?P b}) else None)"
    by (simp add: bridge_frequency_def value_counts_def n mem del: set_map)
  have all: "bridge_frequency sort_values E F k = Some 11"
    if "length ?bs = 11" "\<forall>b\<in>set ?bs. ?P b"
  proof -
    from that(2) have "{b \<in> set ?bs. ?P b} = set ?bs" by auto
    then have "card {b \<in> set ?bs. ?P b} = 11"
      using that(1) buffer_distances_sorted(2) [of E] by (simp add: distinct_card)
    moreover from that have "\<exists>b\<in>set ?bs. ?P b"
      by (cases ?bs) auto
    ultimately show ?thesis by (simp add: freq)
  qed
  from freq all show ?thesis by blast
qed

lemma eleven_distances: "buffer_distances eleven_efficiency_df = eleven_buffers"
  by (simp add: buffer_distances_def eleven_efficiency_df_def eleven_buffers_def efficiency_of_def)


lemma score_buffer_filter:
  "score_buffer b (filter (\<lambda>e. buffer_distance e = b) E) F = score_buffer b E F"
  by (simp add: score_buffer_def merged_df_def)

lemma eleven_rows:
  assumes "b \<in> set eleven_buffers"
  shows "filter (\<lambda>e. buffer_distance e = b) eleven_efficiency_df =
           [efficiency_of ''B1'' b 0.50 (- 0.02), efficiency_of ''B2'' b 0.50 (- 0.01)]"
proof -
  have "distinct eleven_buffers"
    by (simp add: eleven_buffers_def)
  then have "filter (\<lambda>e. buffer_distance e = b) eleven_efficiency_df =
      (if b \<in> set eleven_buffers
       then [efficiency_of ''B1'' b 0.50 (- 0.02), efficiency_of ''B2'' b 0.50 (- 0.01)] else [])"
    unfolding eleven_efficiency_df_def
    by (intro filter_concat_groups) (auto simp: efficiency_of_def)
  with assms show ?thesis by simp
qed

lemma eleven_tops:
  assumes "b \<in> set eleven_buffers"
  shows "map bridge_iop (top_bridges sort_values_stable
       (all_scores_df eleven_efficiency_df scenario_functionality_df) b) = [''B1'', ''B2'']"
proof -
  have "score_buffer b eleven_efficiency_df scenario_functionality_df =
        score_buffer b [efficiency_of ''B1'' b 0.50 (- 0.02), efficiency_of ''B2'' b 0.50 (- 0.01)]
          scenario_functionality_df"
    by (metis score_buffer_filter eleven_rows [OF assms])
  then show ?thesis
    by (simp add: top_bridges_def buffer_scores_all_scores scenario_functionality_df_def
          scorer_defs sort_values_stable_def)
qed

theorem bridge_frequency_counts_groups_witness:
  "length (buffer_distances eleven_efficiency_df) = 11
   \<and> bridge_frequency sort_values_stable eleven_efficiency_df scenario_functionality_df ''B1''
       = Some 11"
proof -
  let ?tops = "top_bridges sort_values_stable
      (all_scores_df eleven_efficiency_df scenario_functionality_df)"
  have n: "length (buffer_distances eleven_efficiency_df) = 11"
    by (simp add: eleven_distances eleven_buffers_def)
  have once: "\<forall>b\<in>set (buffer_distances eleven_efficiency_df).
      count_list (map bridge_iop (?tops b)) ''B1'' \<le> 1"
    using eleven_tops by (simp add: eleven_distances)
  have every: "\<forall>b\<in>set (buffer_distances eleven_efficiency_df).
      ''B1'' \<in> bridge_iop ` set (?tops b)"
  proof
    fix b assume "b \<in> set (buffer_distances eleven_efficiency_df)"
    with eleven_tops have "set (map bridge_iop (?tops b)) = {''B1'', ''B2''}"
      by (simp add: eleven_distances)
    then show "''B1'' \<in> bridge_iop ` set (?tops b)"
      by (simp del: set_map add: set_map [symmetric])
  qed
  from bridge_frequency_counts_groups [OF once] n every show ?thesis
    by blast
qed

section \<open>Properties of the Normalizer\<close>

lemmas float_defs =
  py_float_def strip_def is_space_def sign_def lower_def number_def digitpart_def is_digit_def
  digit_val_def digits_val_def exponent_def scale_def ascii_def char_code_def str_rstrip_def

lemma digit_val_ascii:
  "c < 128 \<Longrightarrow> is_digit decimal c \<longleftrightarrow> 48 \<le> c \<and> c \<le> 57"
  by (auto simp: is_digit_def digit_val_def)

lemma digit_not_space: "is_digit decimal c \<Longrightarrow> \<not> is_space c"
  by (auto simp: is_digit_def digit_val_def is_space_def split: if_splits)

text \<open>What \<open>more_digits\<close> does at a digit, at an underscore and a digit, and elsewhere.\<close>

lemma more_digits_digit:
  "digit_val decimal c = Some v \<Longrightarrow>
   more_digits decimal (c # s) = (v # fst (more_digits decimal s), snd (more_digits decimal s))"
  by (cases s) (auto split: prod.splits)

lemma more_digits_underscore:
  "digit_val decimal c = Some v \<Longrightarrow>
   more_digits decimal (char_code (CHR ''_'') # c # s) =
     (v # fst (more_digits decimal s), snd (more_digits decimal s))"
  by (auto simp: digit_val_def char_code_def split: prod.splits)

lemma more_digits_stops: "stops decimal r \<Longrightarrow> more_digits decimal r = ([], r)"
proof (cases r)
  case Nil
  then show ?thesis by simp
next
  case (Cons x r')
  assume "stops decimal r"
  with Cons have "digit_val decimal x = None" "x \<noteq> char_code (CHR ''_'')"
    by (auto simp: stops_def is_digit_def)
  with Cons show ?thesis by (cases r') auto
qed

lemma more_digits_complete:
  "digit_tail decimal p \<Longrightarrow> stops decimal r \<Longrightarrow> snd (more_digits decimal (p @ r)) = r"
proof (induction rule: digit_tail.induct)
  case no_more
  then show ?case by (simp add: more_digits_stops)
next
  case (digit c w)
  then obtain v where "digit_val decimal c = Some v" by (auto simp: is_digit_def)
  with digit show ?case by (simp add: more_digits_digit)
next
  case (underscore_digit c w)
  then obtain v where v: "digit_val decimal c = Some v" by (auto simp: is_digit_def)
  have "more_digits decimal ((char_code (CHR ''_'') # c # w) @ r) =
          (v # fst (more_digits decimal (w @ r)), snd (more_digits decimal (w @ r)))"
    unfolding append_Cons by (rule more_digits_underscore [OF v])
  with underscore_digit show ?case by (simp del: more_digits.simps)
qed

lemma more_digits_sound:
  "more_digits decimal s = (ds, r) \<Longrightarrow> \<exists>p. s = p @ r \<and> digit_tail decimal p"
proof (induction decimal s arbitrary: ds r rule: more_digits.induct)
  case (1 decimal)
  then show ?case by (auto intro: digit_tail.intros)
next
  case (2 decimal c)
  show ?case
  proof (cases "digit_val decimal c")
    case None
    with 2 have "r = [c]" by simp
    then show ?thesis by (auto intro: digit_tail.intros)
  next
    case (Some v)
    with 2 have "r = []" by simp
    moreover from Some have "digit_tail decimal [c]"
      by (auto intro!: digit_tail.intros simp: is_digit_def)
    ultimately show ?thesis by auto
  qed
next
  case (3 decimal c d s)
  show ?case
  proof (cases "digit_val decimal c")
    case (Some v)
    obtain ds' r' where m: "more_digits decimal (d # s) = (ds', r')"
      by (cases "more_digits decimal (d # s)")
    with Some "3.prems" have r: "r = r'" by simp
    from "3.IH"(2) [OF Some m] obtain p where p: "d # s = p @ r'" "digit_tail decimal p"
      by blast
    from Some p(2) have "digit_tail decimal (c # p)"
      by (auto intro!: digit_tail.intros simp: is_digit_def)
    moreover from p(1) r have "c # d # s = (c # p) @ r" by simp
    ultimately show ?thesis by blast
  next
    case None
    show ?thesis
    proof (cases "c = char_code (CHR ''_'') \<and> digit_val decimal d \<noteq> None")
      case True
      then obtain w where w: "digit_val decimal d = Some w" by auto
      obtain ds' r' where m: "more_digits decimal s = (ds', r')"
        by (cases "more_digits decimal s")
      with None True w "3.prems" have r: "r = r'" by simp
      from True have c: "c = char_code (CHR ''_'')" by simp
      from "3.IH"(1) [OF None c w m] obtain p where p: "s = p @ r'" "digit_tail decimal p"
        by blast
      from w p(2) have "digit_tail decimal (char_code (CHR ''_'') # d # p)"
        by (auto intro!: digit_tail.intros simp: is_digit_def)
      moreover from p(1) r c have "c # d # s = (char_code (CHR ''_'') # d # p) @ r" by simp
      ultimately show ?thesis by blast
    next
      case False
      with None "3.prems" have "r = c # d # s"
        by (auto split: if_splits option.splits)
      then show ?thesis by (auto intro: digit_tail.intros)
    qed
  qed
qed

text \<open>\<open>digitpart\<close> reads a \<open>digitpart_text\<close> or nothing.\<close>

lemma digitpart_sound:
  assumes "digitpart decimal s = (ds, r)"
  shows "(ds = [] \<and> r = s) \<or> (ds \<noteq> [] \<and> (\<exists>p. s = p @ r \<and> digitpart_text decimal p))"
proof (cases s)
  case Nil
  with assms show ?thesis by (simp add: digitpart_def)
next
  case (Cons c s')
  show ?thesis
  proof (cases "is_digit decimal c")
    case False
    with assms Cons show ?thesis by (simp add: digitpart_def)
  next
    case True
    then obtain v where v: "digit_val decimal c = Some v" by (auto simp: is_digit_def)
    from assms Cons True have m: "more_digits decimal (c # s') = (ds, r)"
      by (simp add: digitpart_def)
    with v have ds: "ds = v # fst (more_digits decimal s')" and r: "r = snd (more_digits decimal s')"
      by (simp_all add: more_digits_digit)
    from more_digits_sound [of decimal s' "fst (more_digits decimal s')" r] r
    obtain p where "s' = p @ r" "digit_tail decimal p" by auto
    with True Cons have "s = (c # p) @ r" "digitpart_text decimal (c # p)"
      by (auto simp: digitpart_text_def)
    with ds show ?thesis by blast
  qed
qed

lemma digitpart_complete:
  assumes "digitpart_text decimal p" and "stops decimal r"
  shows "\<exists>ds. ds \<noteq> [] \<and> digitpart decimal (p @ r) = (ds, r)"
proof -
  from assms(1) obtain c w where p: "p = c # w" "is_digit decimal c" "digit_tail decimal w"
    by (auto simp: digitpart_text_def)
  then obtain v where v: "digit_val decimal c = Some v" by (auto simp: is_digit_def)
  from more_digits_complete [OF p(3) assms(2)]
  have "more_digits decimal (p @ r) = (v # fst (more_digits decimal (w @ r)), r)"
    by (simp add: p(1) more_digits_digit [OF v])
  with p show ?thesis by (simp add: digitpart_def)
qed

lemma digitpart_none: "s = [] \<or> \<not> is_digit decimal (hd s) \<Longrightarrow> digitpart decimal s = ([], s)"
  by (cases s) (auto simp: digitpart_def)


text \<open>The marks of the grammar are ASCII characters that are neither digits nor spaces.\<close>

lemma mark_codes:
  "char_code (CHR ''.'') = 46" "char_code (CHR ''e'') = 101" "char_code (CHR ''E'') = 69"
  "char_code (CHR ''+'') = 43" "char_code (CHR ''-'') = 45" "char_code (CHR ''_'') = 95"
  "char_code (CHR ''%'') = 37"
  by (simp_all add: char_code_def)

lemma not_digit_mark:
  "c \<in> {46, 101, 69, 43, 45, 95, 37} \<Longrightarrow> \<not> is_digit decimal c"
  by (auto simp: is_digit_def digit_val_def)

lemma not_space_mark:
  "c \<in> {46, 101, 69, 43, 45, 95, 37} \<Longrightarrow> \<not> is_space c"
  by (auto simp: is_space_def)

lemma stops_mark:
  "c \<in> {46, 101, 69, 43, 45, 37} \<Longrightarrow> stops decimal (c # r)"
  using not_digit_mark [of c decimal] by (auto simp: stops_def mark_codes)

lemma digitpart_text_nonempty: "digitpart_text decimal p \<Longrightarrow> p \<noteq> []"
  by (auto simp: digitpart_text_def)

lemma digitpart_text_hd: "digitpart_text decimal p \<Longrightarrow> is_digit decimal (hd p)"
  by (auto simp: digitpart_text_def)

lemma digit_tail_last: "digit_tail decimal w \<Longrightarrow> w \<noteq> [] \<Longrightarrow> is_digit decimal (last w)"
  by (induction rule: digit_tail.induct) auto

lemma digitpart_text_last: "digitpart_text decimal p \<Longrightarrow> is_digit decimal (last p)"
  using digit_tail_last by (auto simp: digitpart_text_def)

lemma exponent_text_stops: "exponent_text decimal x \<Longrightarrow> stops decimal x"
  by (auto simp: exponent_text_def mark_codes intro: stops_mark) (simp add: stops_def)

lemma exponent_text_no_digitpart:
  "exponent_text decimal x \<Longrightarrow> digitpart decimal x = ([], x)"
  by (rule digitpart_none)
     (auto simp: exponent_text_def mark_codes not_digit_mark)

lemma sign_sound:
  "sign s = (sg, u) \<Longrightarrow> \<exists>p. s = p @ u \<and> sign_text p"
  by (auto simp: sign_def sign_text_def ascii_def split: list.splits if_splits)

lemma sign_complete:
  assumes "sign_text p" and "u \<noteq> []" and "hd u \<noteq> 43" and "hd u \<noteq> 45"
  shows "snd (sign (p @ u)) = u"
  using assms by (cases u) (auto simp: sign_def sign_text_def ascii_def mark_codes)

lemma number_sound:
  assumes "number decimal u = Some ((ip, fp), r)"
  shows "\<exists>n. u = n @ r \<and> number_text decimal n"
proof -
  obtain ip' r1 where d1: "digitpart decimal u = (ip', r1)" by (cases "digitpart decimal u")
  from digitpart_sound [OF d1] obtain p1 where
    p1: "u = p1 @ r1" "(ip' = [] \<and> p1 = []) \<or> (ip' \<noteq> [] \<and> digitpart_text decimal p1)"
    by auto
  show ?thesis
  proof (cases "\<exists>r'. r1 = char_code (CHR ''.'') # r'")
    case True
    then obtain r' where r': "r1 = char_code (CHR ''.'') # r'" by blast
    obtain fp' r2 where d2: "digitpart decimal r' = (fp', r2)" by (cases "digitpart decimal r'")
    from digitpart_sound [OF d2] obtain p2 where
      p2: "r' = p2 @ r2" "(fp' = [] \<and> p2 = []) \<or> (fp' \<noteq> [] \<and> digitpart_text decimal p2)"
      by auto
    from assms d1 r' d2 have r: "r = r2" and some: "\<not> (ip' = [] \<and> fp' = [])"
      by (auto simp: number_def split: if_splits)
    from p1 p2 r' r have u: "u = (p1 @ ascii ''.'' @ p2) @ r"
      by (simp add: ascii_def)
    from p1(2) p2(2) some have "number_text decimal (p1 @ ascii ''.'' @ p2)"
      by (auto simp: number_text_def)
    with u show ?thesis by blast
  next
    case False
    with assms d1 have "r = r1" "ip' \<noteq> []"
      by (auto simp: number_def split: list.splits if_splits)
    with p1 have "u = p1 @ r" "number_text decimal p1"
      by (auto simp: number_text_def)
    then show ?thesis by blast
  qed
qed

lemma number_complete:
  assumes "number_text decimal n" and "exponent_text decimal x"
  shows "\<exists>ip fp. number decimal (n @ x) = Some ((ip, fp), x)"
proof -
  note sx = exponent_text_stops [OF assms(2)]
  note nx = exponent_text_no_digitpart [OF assms(2)]
  have dot: "stops decimal (char_code (CHR ''.'') # r)" for r
    by (simp add: mark_codes stops_mark)
  have xdot: "x = [] \<or> hd x \<noteq> char_code (CHR ''.'')"
    using assms(2) by (auto simp: exponent_text_def mark_codes)
  from assms(1) consider
    (frac) ip fp where "n = ip @ ascii ''.'' @ fp" "ip = [] \<or> digitpart_text decimal ip"
      "digitpart_text decimal fp"
    | (whole) ip where "digitpart_text decimal ip" "n = ip"
    | (point) ip where "digitpart_text decimal ip" "n = ip @ ascii ''.''"
    by (auto simp: number_text_def)
  then show ?thesis
  proof cases
    case frac
    have n: "n @ x = ip @ char_code (CHR ''.'') # fp @ x"
      by (simp add: frac(1) ascii_def)
    from digitpart_complete [OF frac(3) sx] obtain fs where
      fs: "fs \<noteq> []" "digitpart decimal (fp @ x) = (fs, x)" by blast
    from frac(2) obtain ids where
      "digitpart decimal (ip @ char_code (CHR ''.'') # fp @ x) = (ids, char_code (CHR ''.'') # fp @ x)"
    proof
      assume "ip = []"
      then have "digitpart decimal (ip @ char_code (CHR ''.'') # fp @ x) =
          ([], char_code (CHR ''.'') # fp @ x)"
        by (simp add: digitpart_none mark_codes not_digit_mark)
      then show ?thesis using that by blast
    next
      assume "digitpart_text decimal ip"
      from digitpart_complete [OF this dot] show ?thesis using that by blast
    qed
    with fs show ?thesis
      by (simp add: number_def n)
  next
    case whole
    from digitpart_complete [OF whole(1) sx] obtain ids where
      "ids \<noteq> []" "digitpart decimal (ip @ x) = (ids, x)" by blast
    with xdot show ?thesis
      by (cases x) (auto simp: number_def whole(2))
  next
    case point
    have n: "n @ x = ip @ char_code (CHR ''.'') # x"
      by (simp add: point(2) ascii_def)
    from digitpart_complete [OF point(1) dot] obtain ids where
      "ids \<noteq> []" "digitpart decimal (ip @ char_code (CHR ''.'') # x) = (ids, char_code (CHR ''.'') # x)"
      by blast
    with nx show ?thesis
      by (simp add: number_def n)
  qed
qed

lemma exponent_sound:
  assumes "exponent decimal r = Some e"
  shows "exponent_text decimal r"
proof (cases r)
  case Nil
  then show ?thesis by (simp add: exponent_text_def)
next
  case (Cons c r0)
  with assms have c: "c = char_code (CHR ''e'') \<or> c = char_code (CHR ''E'')"
    by (auto simp: exponent_def split: if_splits)
  obtain sg r1 where s: "sign r0 = (sg, r1)" by (cases "sign r0")
  obtain ds r2 where d: "digitpart decimal r1 = (ds, r2)" by (cases "digitpart decimal r1")
  from assms Cons c s d have "ds \<noteq> []" "r2 = []"
    by (auto simp: exponent_def split: if_splits)
  with digitpart_sound [OF d] have "digitpart_text decimal r1" by auto
  moreover from sign_sound [OF s] obtain p where "r0 = p @ r1" "sign_text p" by blast
  ultimately show ?thesis
    using c Cons by (auto simp: exponent_text_def)
qed

lemma exponent_complete:
  assumes "exponent_text decimal x"
  shows "\<exists>e. exponent decimal x = Some e"
proof (cases x)
  case Nil
  then show ?thesis by (simp add: exponent_def)
next
  case (Cons c0 x0)
  with assms obtain sg ds where
    x: "x = c0 # sg @ ds" "c0 = char_code (CHR ''e'') \<or> c0 = char_code (CHR ''E'')"
       "sign_text sg" "digitpart_text decimal ds"
    by (auto simp: exponent_text_def)
  from x(4) have "ds \<noteq> []" "is_digit decimal (hd ds)"
    by (simp_all add: digitpart_text_nonempty digitpart_text_hd)
  then have "hd ds \<noteq> 43" "hd ds \<noteq> 45"
    using not_digit_mark [of "hd ds" decimal] by auto
  from sign_complete [OF x(3) \<open>ds \<noteq> []\<close> this]
  obtain s where s: "sign (sg @ ds) = (s, ds)" by (cases "sign (sg @ ds)") auto
  have "stops decimal []" by (simp add: stops_def)
  from digitpart_complete [OF x(4) this] obtain vs where
    "vs \<noteq> []" "digitpart decimal ds = (vs, [])" by auto
  with s x(1,2) show ?thesis
    by (auto simp: exponent_def)
qed


text \<open>\<open>strip\<close> removes the spaces around a text that starts and ends otherwise.\<close>

lemma strip_decomp:
  "\<exists>ws1 ws2. t = ws1 @ strip t @ ws2 \<and> list_all is_space ws1 \<and> list_all is_space ws2"
proof -
  let ?a = "takeWhile is_space t" and ?m = "dropWhile is_space t"
  let ?b = "takeWhile is_space (rev ?m)"
  have "rev ?m = ?b @ dropWhile is_space (rev ?m)" by simp
  then have "?m = strip t @ rev ?b"
    by (metis rev_append rev_rev_ident strip_def)
  then have "t = ?a @ strip t @ rev ?b"
    by (metis takeWhile_dropWhile_id)
  moreover have "list_all is_space ?a" "list_all is_space (rev ?b)"
    by (auto simp: list_all_iff dest: set_takeWhileD)
  ultimately show ?thesis by blast
qed

lemma strip_core:
  assumes "list_all is_space ws1" and "list_all is_space ws2"
    and "c \<noteq> []" and "\<not> is_space (hd c)" and "\<not> is_space (last c)"
  shows "strip (ws1 @ c @ ws2) = c"
proof -
  from assms(1,3,4) have "dropWhile is_space (ws1 @ c @ ws2) = c @ ws2"
    by (cases c) (auto simp: dropWhile_append3 list_all_iff dropWhile_append)
  moreover from assms(2,3,5) have "dropWhile is_space (rev ws2 @ rev c) = rev c"
    by (cases c rule: rev_cases) (auto simp: list_all_iff dropWhile_append)
  ultimately show ?thesis by (simp add: strip_def)
qed

lemma lower_space: "is_space c \<Longrightarrow> lower c = c"
  by (auto simp: is_space_def lower_def)

lemma special_text_ends:
  assumes "special_text u"
  shows "u \<noteq> [] \<and> \<not> is_space (hd u) \<and> \<not> is_space (last u) \<and> hd u \<noteq> 43 \<and> hd u \<noteq> 45
         \<and> last u \<noteq> 37"
proof -
  from assms have ne: "u \<noteq> []" by (auto simp: special_text_def ascii_def)
  from assms have "hd (map lower u) \<in> {105, 110}" "last (map lower u) \<in> {102, 121, 110}"
    by (auto simp: special_text_def ascii_def char_code_def)
  with ne have h: "lower (hd u) \<in> {105, 110}" and l: "lower (last u) \<in> {102, 121, 110}"
    by (simp_all add: hd_map last_map)
  from h have "\<not> is_space (hd u)" "hd u \<noteq> 43" "hd u \<noteq> 45"
    using lower_space [of "hd u"] by (auto simp: is_space_def lower_def split: if_splits)
  moreover from l have "\<not> is_space (last u)" "last u \<noteq> 37"
    using lower_space [of "last u"] by (auto simp: is_space_def lower_def)
  ultimately show ?thesis using ne by blast
qed

lemma number_text_ends:
  assumes "number_text decimal n"
  shows "n \<noteq> [] \<and> (is_digit decimal (hd n) \<or> hd n = 46) \<and> (is_digit decimal (last n) \<or> last n = 46)"
  using assms digitpart_text_nonempty [of decimal] digitpart_text_hd [of decimal]
    digitpart_text_last [of decimal]
  by (auto simp: number_text_def ascii_def mark_codes hd_append)

lemma exponent_text_last:
  "exponent_text decimal x \<Longrightarrow> x \<noteq> [] \<Longrightarrow> is_digit decimal (last x)"
  using digitpart_text_nonempty [of decimal] digitpart_text_last [of decimal]
  by (auto simp: exponent_text_def)

lemma float_body_ends:
  assumes "number_text decimal n" and "exponent_text decimal x"
  shows "n @ x \<noteq> [] \<and> \<not> is_space (hd (n @ x)) \<and> \<not> is_space (last (n @ x))
         \<and> hd (n @ x) \<noteq> 43 \<and> hd (n @ x) \<noteq> 45 \<and> last (n @ x) \<noteq> 37"
proof -
  from number_text_ends [OF assms(1)] have n: "n \<noteq> []"
    and h: "is_digit decimal (hd n) \<or> hd n = 46" and l: "is_digit decimal (last n) \<or> last n = 46"
    by simp_all
  from h have "\<not> is_space (hd n)" "hd n \<noteq> 43" "hd n \<noteq> 45"
    using digit_not_space [of decimal "hd n"] not_space_mark [of "hd n"]
      not_digit_mark [of "hd n" decimal] by auto
  moreover have "\<not> is_space (last (n @ x)) \<and> last (n @ x) \<noteq> 37"
  proof (cases "x = []")
    case True
    with l show ?thesis
      using digit_not_space [of decimal "last n"] not_space_mark [of "last n"]
        not_digit_mark [of "last n" decimal] by auto
  next
    case False
    with exponent_text_last [OF assms(2)] show ?thesis
      using digit_not_space [of decimal "last x"] not_digit_mark [of "last x" decimal] by auto
  qed
  ultimately show ?thesis using n by simp
qed

text \<open>The texts that \<open>py_float\<close> converts are the texts of the grammar.\<close>

lemma py_float_sound:
  assumes "py_float decimal t = Some v"
  shows "float_text decimal t"
proof -
  obtain sg u where s: "sign (strip t) = (sg, u)" by (cases "sign (strip t)")
  from sign_sound [OF s] obtain p where p: "strip t = p @ u" "sign_text p" by blast
  from strip_decomp [of t] obtain ws1 ws2 where
    ws: "t = ws1 @ strip t @ ws2" "list_all is_space ws1" "list_all is_space ws2" by blast
  have body: "special_text u \<or> (\<exists>n x. u = n @ x \<and> number_text decimal n \<and> exponent_text decimal x)"
  proof (cases "special_text u")
    case True
    then show ?thesis by simp
  next
    case False
    with assms s have "(case number decimal u of None \<Rightarrow> None
        | Some ((ip, fp), r) \<Rightarrow>
            (case exponent decimal r of None \<Rightarrow> None
             | Some e \<Rightarrow> Some (f64_round (of_int sg *
                 scale (of_nat (digits_val (ip @ fp)) / 10 ^ length fp) e)))) = Some v"
      by (simp add: py_float_def special_text_def)
    then obtain ip fp r e where
      n: "number decimal u = Some ((ip, fp), r)" and e: "exponent decimal r = Some e"
      by (auto split: option.splits)
    from number_sound [OF n] exponent_sound [OF e] show ?thesis by blast
  qed
  from ws(1) p(1) have "t = ws1 @ p @ u @ ws2" by simp
  with ws(2,3) p(2) body show ?thesis
    unfolding float_text_def by blast
qed

lemma py_float_complete:
  assumes "float_text decimal t"
  shows "\<exists>v. py_float decimal t = Some v"
proof -
  from assms obtain ws1 sg body ws2 where
    t: "t = ws1 @ sg @ body @ ws2" "list_all is_space ws1" "list_all is_space ws2"
       "sign_text sg"
    and body: "special_text body \<or>
       (\<exists>n x. body = n @ x \<and> number_text decimal n \<and> exponent_text decimal x)"
    unfolding float_text_def by blast
  from body have ends: "body \<noteq> [] \<and> \<not> is_space (hd body) \<and> \<not> is_space (last body)
      \<and> hd body \<noteq> 43 \<and> hd body \<noteq> 45"
    using special_text_ends [of body] float_body_ends [of decimal] by blast
  from t(4) ends have core: "sg @ body \<noteq> []" "\<not> is_space (hd (sg @ body))"
      "\<not> is_space (last (sg @ body))"
    using not_space_mark [of 43] not_space_mark [of 45]
    by (auto simp: sign_text_def ascii_def mark_codes)
  from strip_core [OF t(2,3) core] t(1) have "strip t = sg @ body" by simp
  moreover from ends have "snd (sign (sg @ body)) = body"
    by (intro sign_complete [OF t(4)]) simp_all
  then obtain s where "sign (sg @ body) = (s, body)"
    by (cases "sign (sg @ body)") auto
  ultimately have s: "sign (strip t) = (s, body)" by simp
  show ?thesis
  proof (cases "special_text body")
    case True
    with s show ?thesis
      by (auto simp: py_float_def special_text_def)
  next
    case False
    with body obtain n x where nx: "body = n @ x" "number_text decimal n" "exponent_text decimal x"
      by blast
    from number_complete [OF nx(2,3)] obtain ip fp where
      "number decimal body = Some ((ip, fp), x)" by (auto simp: nx(1))
    moreover from exponent_complete [OF nx(3)] obtain e where "exponent decimal x = Some e"
      by blast
    ultimately show ?thesis
      using s False by (simp add: py_float_def special_text_def)
  qed
qed

lemma py_float_None: "py_float decimal t = None \<longleftrightarrow> \<not> float_text decimal t"
  using py_float_sound py_float_complete by (metis option.exhaust option.distinct(1))


text \<open>No float text ends with a percent sign, so \<open>rstrip\<close> removes exactly the one added.\<close>

lemma float_text_last:
  assumes "float_text decimal t"
  shows "t \<noteq> [] \<and> last t \<noteq> char_code (CHR ''%'')"
proof -
  from assms obtain ws1 sg body ws2 where
    t: "t = ws1 @ sg @ body @ ws2" "list_all is_space ws2"
    and body: "special_text body \<or>
       (\<exists>n x. body = n @ x \<and> number_text decimal n \<and> exponent_text decimal x)"
    unfolding float_text_def by blast
  from body have ends: "body \<noteq> [] \<and> last body \<noteq> 37"
    using special_text_ends [of body] float_body_ends [of decimal] by blast
  show ?thesis
  proof (cases "ws2 = []")
    case True
    with t(1) ends show ?thesis by (simp add: mark_codes)
  next
    case False
    with t(2) have "is_space (last ws2)" by (simp add: list_all_iff)
    with False t(1) show ?thesis
      using not_space_mark [of 37] by (auto simp: mark_codes)
  qed
qed

lemma str_rstrip_snoc: "str_rstrip c (s @ [c]) = str_rstrip c s"
  by (simp add: str_rstrip_def)

lemma str_rstrip_id: "s = [] \<or> last s \<noteq> c \<Longrightarrow> str_rstrip c s = s"
  by (cases s rule: rev_cases) (auto simp: str_rstrip_def)

lemma py_float_rstrip:
  assumes "py_float decimal n = Some v"
  shows "str_rstrip (char_code (CHR ''%'')) (n @ ascii ''%'') = n"
proof -
  from float_text_last [OF py_float_sound [OF assms]]
  have "last n \<noteq> char_code (CHR ''%'')" by simp
  then show ?thesis
    by (simp add: ascii_def str_rstrip_snoc str_rstrip_id)
qed

text \<open>
  C5. A column whose values are numeric strings, each followed by a percent sign, is
  converted to the numbers the strings denote: \<open>93.4%\<close> to 93.4 and \<open>80%\<close> to 80.
\<close>

theorem clean_functionality_percent:
  assumes "list_all2 (\<lambda>n v. py_float decimal n = Some v) ns vs"
  shows "clean_functionality decimal (Object (map (\<lambda>n. Str (n @ ascii ''%'')) ns)) = Inr vs"
  using assms
proof (induction rule: list_all2_induct)
  case Nil
  then show ?case by simp
next
  case (Cons n ns v vs)
  then show ?case
    by (simp add: py_float_rstrip)
qed

theorem clean_functionality_percent_witness:
  "\<forall>decimal.
     py_float decimal (ascii ''93.4'') = Some (Fin 93.4)
     \<and> py_float decimal (ascii ''80'') = Some (Fin 80)
     \<and> clean_functionality decimal (Object [Str (ascii ''93.4%''), Str (ascii ''80%'')])
         = Inr [Fin 93.4, Fin 80]"
proof
  fix decimal
  have a: "py_float decimal (ascii ''93.4'') = Some (Fin 93.4)"
    and b: "py_float decimal (ascii ''80'') = Some (Fin 80)"
    by (simp_all add: float_defs)
  then have "list_all2 (\<lambda>n v. py_float decimal n = Some v)
      [ascii ''93.4'', ascii ''80''] [Fin 93.4, Fin 80]"
    by simp
  from clean_functionality_percent [OF this] a b
  show "py_float decimal (ascii ''93.4'') = Some (Fin 93.4)
     \<and> py_float decimal (ascii ''80'') = Some (Fin 80)
     \<and> clean_functionality decimal (Object [Str (ascii ''93.4%''), Str (ascii ''80%'')])
         = Inr [Fin 93.4, Fin 80]"
    by (simp add: ascii_def)
qed

lemma astype_float_error:
  assumes "Str s \<in> set cells" and "py_float decimal s = None"
  shows "astype_float decimal cells = Inl ValueError"
proof -
  have only: "astype_float decimal cs = Inl e \<Longrightarrow> e = ValueError" for cs e
    by (induction decimal cs arbitrary: e rule: astype_float.induct)
       (auto split: sum.splits option.splits)
  from assms show ?thesis
  proof (induction decimal cells rule: astype_float.induct)
    case (1 decimal)
    then show ?case by simp
  next
    case (2 decimal cells)
    then show ?case by (auto split: sum.splits)
  next
    case (3 decimal t cells)
    show ?case
    proof (cases "py_float decimal t")
      case None
      then show ?thesis by simp
    next
      case (Some v)
      with "3.prems" have "Str s \<in> set cells" by auto
      from "3.IH" [OF Some this "3.prems"(2)] Some show ?thesis by simp
    qed
  qed
qed

text \<open>
  C4. A string of the column whose text, after every trailing percent sign is removed, is
  not numeric makes the conversion raise \<open>ValueError\<close>. A string without the percent
  sign is not rejected for that: in a column with \<open>93.4%\<close>, the string \<open>80\<close> is
  converted to 80.
\<close>

theorem clean_functionality_format_error:
  assumes "Str s \<in> set cells"
    and "\<not> float_text decimal (str_rstrip (char_code (CHR ''%'')) s)"
  shows "clean_functionality decimal (Object cells) = Inl ValueError"
proof -
  from assms(1) have "Str (str_rstrip (char_code (CHR ''%'')) s)
      \<in> set (map (cell_rstrip (char_code (CHR ''%''))) cells)"
    by (force simp: image_iff)
  moreover from assms(2) have "py_float decimal (str_rstrip (char_code (CHR ''%'')) s) = None"
    by (simp add: py_float_None)
  ultimately show ?thesis
    by (simp add: astype_float_error)
qed

theorem clean_functionality_format_error_witness:
  "\<forall>decimal.
     \<not> float_text decimal (str_rstrip (char_code (CHR ''%'')) (ascii ''abc%''))
     \<and> clean_functionality decimal (Object [Str (ascii ''93.4%''), Missing, Str (ascii ''abc%'')])
         = Inl ValueError"
proof
  fix decimal
  have "py_float decimal (str_rstrip (char_code (CHR ''%'')) (ascii ''abc%'')) = None"
    by (simp add: float_defs)
  then have n: "\<not> float_text decimal (str_rstrip (char_code (CHR ''%'')) (ascii ''abc%''))"
    by (simp add: py_float_None)
  have "Str (ascii ''abc%'') \<in> set [Str (ascii ''93.4%''), Missing, Str (ascii ''abc%'')]"
    by simp
  from clean_functionality_format_error [OF this n] n
  show "\<not> float_text decimal (str_rstrip (char_code (CHR ''%'')) (ascii ''abc%''))
     \<and> clean_functionality decimal (Object [Str (ascii ''93.4%''), Missing, Str (ascii ''abc%'')])
         = Inl ValueError"
    by simp
qed

theorem clean_functionality_suffix_counterexample:
  "\<forall>decimal.
     last (ascii ''80'') \<noteq> char_code (CHR ''%'')
     \<and> float_text decimal (ascii ''80'')
     \<and> clean_functionality decimal (Object [Str (ascii ''93.4%''), Str (ascii ''80'')])
         = Inr [Fin 93.4, Fin 80]"
proof
  fix decimal
  have "py_float decimal (ascii ''80'') = Some (Fin 80)"
    by (simp add: float_defs)
  then have "float_text decimal (ascii ''80'')"
    by (rule py_float_sound)
  then show "last (ascii ''80'') \<noteq> char_code (CHR ''%'')
     \<and> float_text decimal (ascii ''80'')
     \<and> clean_functionality decimal (Object [Str (ascii ''93.4%''), Str (ascii ''80'')])
         = Inr [Fin 93.4, Fin 80]"
    by (simp add: float_defs)
qed

end
